theory Spec2Isabelle
  imports
    Main
    "HOL-Library.Char_ord"
    "HOL-Library.List_Lexorder"
    "HOL-Library.Sublist"
    "HOL-Library.Multiset"
begin

section \<open>Python string primitives used by the downloader\<close>

text \<open>
  Strings are lists of 8-bit code points, the Latin-1 range of Python's \<^verbatim>\<open>str\<close>. In that
  range \<^verbatim>\<open>str.isspace\<close> holds for the code points 9 to 13, 28 to 32, 133 (U+0085) and 160
  (U+00A0); \<^verbatim>\<open>strip\<close> and \<^verbatim>\<open>split\<close> without an argument remove and split at exactly these.
  \<open>lower\<close> maps A..Z to a..z. Python lowers the letters 192 to 222 as well, one code point
  to one code point outside ASCII; the code compares lowered text with ASCII strings only
  (the image extensions, the answer \<^verbatim>\<open>y\<close>), where the two agree.
\<close>

definition isspace :: "char \<Rightarrow> bool" where
  "isspace c =
     (let n = (of_char c :: nat)
      in (9 \<le> n \<and> n \<le> 13) \<or> (28 \<le> n \<and> n \<le> 32) \<or> n = 133 \<or> n = 160)"

definition strip :: "string \<Rightarrow> string" where
  "strip s = rev (dropWhile isspace (rev (dropWhile isspace s)))"

text \<open>\<^verbatim>\<open>s.split(sep)\<close> for a one-character separator: never empty, \<^verbatim>\<open>''.split(sep) == ['']\<close>.\<close>

fun split_on :: "char \<Rightarrow> string \<Rightarrow> string list" where
  "split_on sep [] = [[]]"
| "split_on sep (c # cs) =
     (if c = sep then [] # split_on sep cs
      else (case split_on sep cs of
              [] \<Rightarrow> [[c]]
            | w # ws \<Rightarrow> (c # w) # ws))"

text \<open>\<^verbatim>\<open>s.split()\<close>: the maximal runs of non-whitespace; \<open>cur\<close> is the run being read.\<close>

fun split_ws :: "string \<Rightarrow> string \<Rightarrow> string list" where
  "split_ws cur [] = (if cur = [] then [] else [cur])"
| "split_ws cur (c # cs) =
     (if isspace c then (if cur = [] then split_ws [] cs else cur # split_ws [] cs)
      else split_ws (cur @ [c]) cs)"

definition split :: "string \<Rightarrow> string list" where
  "split s = split_ws [] s"

definition lower_char :: "char \<Rightarrow> char" where
  "lower_char c =
     (case map_of (zip ''ABCDEFGHIJKLMNOPQRSTUVWXYZ'' ''abcdefghijklmnopqrstuvwxyz'') c of
        None \<Rightarrow> c
      | Some l \<Rightarrow> l)"

definition lower :: "string \<Rightarrow> string" where
  "lower s = map lower_char s"

text \<open>\<^verbatim>\<open>sub in s\<close> on strings: \<open>sub\<close> occurs somewhere in \<open>s\<close> as a contiguous block.\<close>

fun contains :: "string \<Rightarrow> string \<Rightarrow> bool" where
  "contains sub [] = (sub = [])"
| "contains sub (c # cs) = (prefix sub (c # cs) \<or> contains sub cs)"

text \<open>\<^verbatim>\<open>os.path.join(a, b)\<close> of \<^verbatim>\<open>posixpath\<close>, for two components.\<close>

definition path_join :: "string \<Rightarrow> string \<Rightarrow> string" where
  "path_join a b =
     (if prefix ''/'' b then b
      else if a = [] \<or> last a = CHR ''/'' then a @ b
      else a @ ''/'' @ b)"

section \<open>Data model\<close>

text \<open>
  One entry of \<^verbatim>\<open>VideoList\<close> in the export: the keys the extractor reads. \<open>None\<close> is a
  missing key (or JSON \<^verbatim>\<open>null\<close> for \<open>Link\<close>).
\<close>

record raw_video =
  Link :: "string option"
  Date :: "string option"

text \<open>
  The export \<^verbatim>\<open>{ Video: { Videos: { VideoList: [...] } } }\<close>; each level may be missing.
\<close>

record videos_section =
  VideoList :: "raw_video list option"

record video_section =
  Videos :: "videos_section option"

record schema =
  Video :: "video_section option"

text \<open>The dictionary built by \<^verbatim>\<open>add_video\<close>: keys \<^verbatim>\<open>url\<close>, \<^verbatim>\<open>date\<close>, \<^verbatim>\<open>type\<close>, \<^verbatim>\<open>is_personal\<close>.\<close>

record video =
  url :: string
  date :: string
  video_type :: string
  is_personal :: bool

section \<open>Record extractor: \<^verbatim>\<open>get_video_links\<close>\<close>

text \<open>\<^verbatim>\<open>video.get('Date', '')\<close>.\<close>

definition entry_date :: "raw_video \<Rightarrow> string" where
  "entry_date rv = (case Date rv of None \<Rightarrow> [] | Some d \<Rightarrow> d)"

text \<open>
  The state of the extraction is the pair of the closure variables \<^verbatim>\<open>videos\<close> and
  \<^verbatim>\<open>processed_urls\<close>. \<open>add_urls\<close> is the loop \<^verbatim>\<open>for url in urls\<close> of \<^verbatim>\<open>add_video\<close>.
\<close>

fun add_urls ::
  "raw_video \<Rightarrow> string \<Rightarrow> bool \<Rightarrow> string list \<Rightarrow> video list \<times> string set
     \<Rightarrow> video list \<times> string set" where
  "add_urls rv vtype personal [] st = st"
| "add_urls rv vtype personal (u # us) (videos, processed_urls) =
     (let u' = strip u in
      if u' = [] \<or> u' \<in> processed_urls then add_urls rv vtype personal us (videos, processed_urls)
      else add_urls rv vtype personal us
             (videos @ [\<lparr>url = u',
                          date = entry_date rv,
                          video_type = vtype,
                          is_personal = personal\<rparr>],
              insert u' processed_urls))"

definition add_video ::
  "raw_video \<Rightarrow> string \<Rightarrow> bool \<Rightarrow> video list \<times> string set \<Rightarrow> video list \<times> string set" where
  "add_video rv vtype personal st =
     (case Link rv of
        None \<Rightarrow> st
      | Some l \<Rightarrow> if l = [] then st else add_urls rv vtype personal (split_on CHR 0x0A l) st)"

text \<open>The list walked by the extractor: empty unless both \<^verbatim>\<open>Video\<close> and \<^verbatim>\<open>Videos\<close> are there.\<close>

definition video_list :: "schema \<Rightarrow> raw_video list" where
  "video_list data =
     (case Video data of
        None \<Rightarrow> []
      | Some v \<Rightarrow>
          (case Videos v of
             None \<Rightarrow> []
           | Some vs \<Rightarrow> (case VideoList vs of None \<Rightarrow> [] | Some l \<Rightarrow> l)))"

definition collect :: "raw_video list \<Rightarrow> video list \<times> string set" where
  "collect rvs = foldl (\<lambda>st rv. add_video rv ''posted'' True st) ([], {}) rvs"

text \<open>
  \<^verbatim>\<open>videos.sort(key=..., reverse=True)\<close> is a stable descending sort: Python reverses the
  list, sorts it stably in ascending order and reverses the result.
\<close>

definition sort_reverse :: "video list \<Rightarrow> video list" where
  "sort_reverse vs = rev (sort_key date (rev vs))"

definition get_video_links :: "schema \<Rightarrow> video list" where
  "get_video_links data = sort_reverse (fst (collect (video_list data)))"

text \<open>The two counts of the summary line logged by \<^verbatim>\<open>get_video_links\<close>.\<close>

definition personal_count :: "video list \<Rightarrow> nat" where
  "personal_count vs = length (filter is_personal vs)"

definition other_count :: "video list \<Rightarrow> nat" where
  "other_count vs = length vs - personal_count vs"

section \<open>Destination path\<close>

text \<open>
  The first lines of \<^verbatim>\<open>download_video\<close>, up to \<^verbatim>\<open>filepath = os.path.join(...)\<close>. They read
  the task only. \<^verbatim>\<open>video_info['date'].split()[0]\<close> raises \<^verbatim>\<open>IndexError\<close> when the date is
  not empty but holds whitespace only; \<open>None\<close> stands for that exception, which the
  function's outer \<^verbatim>\<open>except\<close> turns into the result \<^verbatim>\<open>None\<close>.
\<close>

text \<open>
  What the downloader object and its surroundings supply: the download directory, the
  hash \<^verbatim>\<open>hashlib.md5(url.encode()).hexdigest()\<close> (a library function, taken as a parameter),
  the network (the answer to a request for a URL made at a given moment, the moment being
  the number of events logged so far), the moment at which each task's worker finishes
  (it fixes the order of \<^verbatim>\<open>as_completed\<close>), and, for the GUI, \<^verbatim>\<open>self.stop_event\<close> (its value at
  each poll) and whether a \<^verbatim>\<open>gui_callback\<close> is installed.
\<close>

datatype response =
    RequestFailed
  | OpenFailed
  | Body "string list"
  | Broken "string list"

record env =
  download_dir :: string
  md5_hexdigest :: "string \<Rightarrow> string"
  http :: "string \<Rightarrow> nat \<Rightarrow> response"
  finish_time :: "video \<Rightarrow> nat"
  stop_event :: "(nat \<Rightarrow> bool) option"
  gui_callback :: bool

definition date_str :: "video \<Rightarrow> string option" where
  "date_str v =
     (if date v = [] then Some ''unknown_date''
      else (case split (date v) of [] \<Rightarrow> None | w # ws \<Rightarrow> Some w))"

definition image_extensions :: "string list" where
  "image_extensions = [''.jpg'', ''.jpeg'', ''.png'', ''.webp'']"

definition is_image :: "string \<Rightarrow> bool" where
  "is_image u = list_ex (\<lambda>ext. contains ext (lower u)) image_extensions"

definition extension :: "string \<Rightarrow> string" where
  "extension u = (if is_image u then ''.jpg'' else ''.mp4'')"

definition filename :: "env \<Rightarrow> video \<Rightarrow> string option" where
  "filename E v =
     (case date_str v of
        None \<Rightarrow> None
      | Some d \<Rightarrow>
          Some ((if is_personal v then ''personal'' else ''other'') @ ''_'' @ d @ ''_'' @
                video_type v @ ''_'' @ take 8 (md5_hexdigest E (url v)) @ extension (url v)))"

definition filepath :: "env \<Rightarrow> video \<Rightarrow> string option" where
  "filepath E v = map_option (path_join (download_dir E)) (filename E v)"

section \<open>Fetch worker: \<^verbatim>\<open>download_video\<close>\<close>

text \<open>
  The world a worker acts on: the files of the download directory (path to content), the
  log of what was done, in order, and the number of polls of a stop signal made so far.
  Of the log lines of the source only those that mark a point a property speaks of are
  kept as events.
\<close>

datatype event =
    Request string
  | Sleep nat
  | Submit "video list"
  | CancelPending
  | Shutdown bool
  | Verified string
  | Cancelling
  | Progress nat nat

record world =
  files :: "string \<rightharpoonup> string"
  trace :: "event list"
  polls :: nat

definition log_events :: "event list \<Rightarrow> world \<Rightarrow> world" where
  "log_events es w = w\<lparr>trace := trace w @ es\<rparr>"

text \<open>
  \<^verbatim>\<open>open(filepath, 'wb')\<close> followed by the writes of the chunks received (empty chunks are
  skipped): the file is created or truncated, then holds what was written.
\<close>

definition write_chunks :: "string \<Rightarrow> string list \<Rightarrow> world \<Rightarrow> world" where
  "write_chunks fp chunks w = w\<lparr>files := (files w)(fp \<mapsto> concat (filter (\<lambda>c. c \<noteq> []) chunks))\<rparr>"

definition max_retries :: nat where
  "max_retries = 3"

text \<open>
  The loop \<^verbatim>\<open>for attempt in range(max_retries)\<close>. A response \<open>RequestFailed\<close> is an exception
  of \<^verbatim>\<open>requests.get\<close> or \<^verbatim>\<open>raise_for_status\<close>, \<open>OpenFailed\<close> one of \<^verbatim>\<open>open\<close>, \<open>Broken\<close> one raised
  after the chunks given were written. On the last attempt the exception is raised again
  and caught by the outer handler, which returns \<^verbatim>\<open>None\<close>.
\<close>

function attempts :: "env \<Rightarrow> string \<Rightarrow> string \<Rightarrow> nat \<Rightarrow> world \<Rightarrow> string option \<times> world" where
  "attempts E u fp attempt w =
     (if max_retries \<le> attempt then (None, w)
      else
        (case http E u (length (trace w)) of
           Body chunks \<Rightarrow> (Some fp, write_chunks fp chunks (log_events [Request u] w))
         | Broken chunks \<Rightarrow>
             (if attempt < max_retries - 1
              then attempts E u fp (attempt + 1)
                     (log_events [Sleep 2] (write_chunks fp chunks (log_events [Request u] w)))
              else (None, write_chunks fp chunks (log_events [Request u] w)))
         | _ \<Rightarrow>
             (if attempt < max_retries - 1
              then attempts E u fp (attempt + 1) (log_events [Sleep 2] (log_events [Request u] w))
              else (None, log_events [Request u] w))))"
  by pat_completeness auto
termination
  by (relation "measure (\<lambda>(E, u, fp, attempt, w). max_retries - attempt)") auto

declare attempts.simps [simp del]

definition download_video :: "env \<Rightarrow> world \<Rightarrow> video \<Rightarrow> string option \<times> world" where
  "download_video E w v =
     (case filepath E v of
        None \<Rightarrow> (None, w)
      | Some fp \<Rightarrow>
          if files w fp \<noteq> None then (Some fp, w)
          else attempts E (url v) fp 0 w)"

text \<open>\<^verbatim>\<open>ev and ev.is_set()\<close> (or \<^verbatim>\<open>ev and ev()\<close>): no poll is made when the signal is \<^verbatim>\<open>None\<close>.\<close>

definition poll :: "(nat \<Rightarrow> bool) option \<Rightarrow> world \<Rightarrow> bool \<times> world" where
  "poll ev w =
     (case ev of
        None \<Rightarrow> (False, w)
      | Some f \<Rightarrow> (f (polls w), w\<lparr>polls := polls w + 1\<rparr>))"

text \<open>The GUI's worker checks the stop event first.\<close>

definition gui_download_video :: "env \<Rightarrow> world \<Rightarrow> video \<Rightarrow> string option \<times> world" where
  "gui_download_video E w v =
     (case poll (stop_event E) w of
        (stop, w1) \<Rightarrow> if stop then (None, w1) else download_video E w1 v)"

section \<open>Batch scheduler: \<^verbatim>\<open>parallel_download_videos\<close>\<close>

text \<open>
  The worker pool is modelled by one of its schedules: the workers of a batch run one
  after the other, in the order in which \<^verbatim>\<open>as_completed\<close> yields their futures, and the
  scheduler handles a completion right after its worker has returned. The order is that
  of the workers' finishing times, submission order breaking ties.

  \<^verbatim>\<open>download_video\<close> catches every exception and returns a path or \<^verbatim>\<open>None\<close>, so
  \<^verbatim>\<open>future.result()\<close> does not raise for a future that has run and its value is a string
  whenever it is true: the handler \<^verbatim>\<open>except Exception\<close> and the branch for a result that
  is no string are not entered.
\<close>

datatype error = ValueError | EOFError | UnboundLocalError

record state =
  all_successful_downloads :: "string list"
  all_failed_downloads :: "string list"
  processed_urls :: "string set"
  successful_downloads :: "string list"
  failed_downloads :: "string list"
  videos_processed :: nat
  future :: "(video \<times> string option) option"
  stdin :: "string list"
  world :: world

definition init_state :: "string list \<Rightarrow> world \<Rightarrow> state" where
  "init_state inp w =
     \<lparr>all_successful_downloads = [], all_failed_downloads = [], processed_urls = {},
      successful_downloads = [], failed_downloads = [], videos_processed = 0,
      future = None, stdin = inp, world = w\<rparr>"

definition as_completed :: "env \<Rightarrow> video list \<Rightarrow> video list" where
  "as_completed E batch = sort_key (finish_time E) batch"

text \<open>\<^verbatim>\<open>os.path.exists(result) and os.path.getsize(result) > 0\<close>.\<close>

definition verify :: "world \<Rightarrow> string \<Rightarrow> bool" where
  "verify w p = (case files w p of None \<Rightarrow> False | Some content \<Rightarrow> 0 < length content)"

text \<open>
  The block \<^verbatim>\<open>try: result = future.result() ...\<close> that classifies one completion; the same
  text stands in both schedulers (and a second time in the GUI's \<^verbatim>\<open>finally\<close> clause).
\<close>

definition handle_result :: "video \<Rightarrow> string option \<Rightarrow> state \<Rightarrow> state" where
  "handle_result v result st =
     (case result of
        None \<Rightarrow> st\<lparr>failed_downloads := failed_downloads st @ [url v]\<rparr>
      | Some p \<Rightarrow>
          if p = [] then st\<lparr>failed_downloads := failed_downloads st @ [url v]\<rparr>
          else if verify (world st) p
          then st\<lparr>successful_downloads := successful_downloads st @ [p],
                  world := log_events [Verified p] (world st)\<rparr>
          else st\<lparr>failed_downloads := failed_downloads st @ [url v]\<rparr>)"

subsection \<open>Command line (\<^verbatim>\<open>main.py\<close>)\<close>

text \<open>The loop \<^verbatim>\<open>for future in concurrent.futures.as_completed(future_to_video)\<close>.\<close>

fun drain :: "env \<Rightarrow> video list \<Rightarrow> state \<Rightarrow> state" where
  "drain E [] st = st"
| "drain E (v # vs) st =
     (case download_video E (world st) v of
        (result, w1) \<Rightarrow>
          if url v \<in> processed_urls st then drain E vs (st\<lparr>world := w1\<rparr>)
          else drain E vs
                 (handle_result v result
                    (st\<lparr>world := w1, processed_urls := insert (url v) (processed_urls st)\<rparr>)))"

text \<open>
  The body of the loop over the batches, from \<^verbatim>\<open>successful_downloads = []\<close> to the lines that
  add the batch's results to the overall totals. Leaving the \<^verbatim>\<open>with\<close> block shuts the pool
  down, waiting.
\<close>

definition process_batch :: "env \<Rightarrow> video list \<Rightarrow> state \<Rightarrow> state" where
  "process_batch E batch st =
     (let st1 = st\<lparr>successful_downloads := [], failed_downloads := [],
                     world := log_events [Submit batch] (world st)\<rparr>;
          st2 = drain E (as_completed E batch) st1;
          st3 = st2\<lparr>world := log_events [Shutdown True] (world st2)\<rparr>
      in st3\<lparr>all_successful_downloads :=
                 all_successful_downloads st3 @ successful_downloads st3,
               all_failed_downloads := all_failed_downloads st3 @ failed_downloads st3\<rparr>)"

text \<open>
  The loop \<^verbatim>\<open>for i in range(0, len(videos), batch_size)\<close> for a positive step. From the
  second batch on one line is read from the standard input (\<^verbatim>\<open>input\<close> raises \<^verbatim>\<open>EOFError\<close>
  at its end); any answer but \<^verbatim>\<open>y\<close> or \<^verbatim>\<open>Y\<close> leaves the loop.
\<close>

function batches :: "env \<Rightarrow> video list \<Rightarrow> nat \<Rightarrow> nat \<Rightarrow> state \<Rightarrow> error + state" where
  "batches E videos batch_size i st =
     (if batch_size = 0 \<or> length videos \<le> i then Inr st
      else if 0 < i \<and> stdin st = [] then Inl EOFError
      else if 0 < i \<and> lower (hd (stdin st)) \<noteq> ''y'' then Inr (st\<lparr>stdin := tl (stdin st)\<rparr>)
      else
        batches E videos batch_size (i + batch_size)
          (process_batch E (take batch_size (drop i videos))
             (if 0 < i then st\<lparr>stdin := tl (stdin st)\<rparr> else st)))"
  by pat_completeness auto
termination
proof (relation "measure (\<lambda>(E, videos, batch_size, i, st). length videos - i)")
  show "wf (measure (\<lambda>(E, videos, batch_size, i, st). length videos - i))"
    by simp
next
  fix E :: env and videos :: "video list" and batch_size i :: nat and st :: state
  assume "\<not> (batch_size = 0 \<or> length videos \<le> i)"
  then have "length videos - (i + batch_size) < length videos - i"
    by arith
  then show "((E, videos, batch_size, i + batch_size,
               process_batch E (take batch_size (drop i videos))
                 (if 0 < i then st\<lparr>stdin := tl (stdin st)\<rparr> else st)),
              E, videos, batch_size, i, st)
               \<in> measure (\<lambda>(E, videos, batch_size, i, st). length videos - i)"
    by simp
qed

declare batches.simps [simp del]

text \<open>
  \<^verbatim>\<open>range\<close> raises \<^verbatim>\<open>ValueError\<close> for the step 0 and is empty for a negative step. The value
  returned is \<^verbatim>\<open>all_successful_downloads\<close>; the final state is returned with it.
\<close>

definition parallel_download_videos ::
  "env \<Rightarrow> video list \<Rightarrow> int \<Rightarrow> string list \<Rightarrow> world \<Rightarrow> error + string list \<times> state" where
  "parallel_download_videos E videos batch_size inp w =
     (if batch_size = 0 then Inl ValueError
      else if batch_size < 0 then Inr ([], init_state inp w)
      else (case batches E videos (nat batch_size) 0 (init_state inp w) of
              Inl e \<Rightarrow> Inl e
            | Inr st \<Rightarrow> Inr (all_successful_downloads st, st)))"

subsection \<open>GUI (\<^verbatim>\<open>tiktok_downloader_gui.py\<close>)\<close>

text \<open>
  How the \<^verbatim>\<open>try\<close> block is left: the loop over the completions ran to its end, or the
  \<^verbatim>\<open>return all_successful_downloads\<close> of the cancellation branch is pending.
\<close>

datatype try_exit = Drained | Returning "string list"

text \<open>
  \<open>record_completion\<close> is the text after the duplicate check: the URL is recorded, the
  counter bumped, the result classified and the progress reported.
\<close>

definition record_completion :: "env \<Rightarrow> nat \<Rightarrow> video \<Rightarrow> string option \<Rightarrow> state \<Rightarrow> state" where
  "record_completion E total_videos v result st =
     (let st1 = handle_result v result
                  (st\<lparr>processed_urls := insert (url v) (processed_urls st),
                      videos_processed := videos_processed st + 1\<rparr>)
      in if gui_callback E
         then st1\<lparr>world := log_events [Progress (videos_processed st1) total_videos] (world st1)\<rparr>
         else st1)"

text \<open>
  The loop over the completions inside \<^verbatim>\<open>try\<close>. \<open>future\<close> holds the loop variable: the task
  of the future last yielded, with the value its worker returned. On a stop the pending
  futures are cancelled (their workers never run), the pool is shut down without waiting
  and the function returns.
\<close>

fun gui_drain :: "env \<Rightarrow> nat \<Rightarrow> video list \<Rightarrow> state \<Rightarrow> try_exit \<times> state" where
  "gui_drain E total_videos [] st = (Drained, st)"
| "gui_drain E total_videos (v # vs) st =
     (case gui_download_video E (world st) v of
        (result, w1) \<Rightarrow>
          (case poll (stop_event E) w1 of
             (stop, w2) \<Rightarrow>
               if stop
               then (Returning (all_successful_downloads st),
                     st\<lparr>future := Some (v, result),
                        world := log_events [CancelPending, Shutdown False, Cancelling] w2\<rparr>)
               else if url v \<in> processed_urls st
               then gui_drain E total_videos vs (st\<lparr>future := Some (v, result), world := w2\<rparr>)
               else gui_drain E total_videos vs
                      (record_completion E total_videos v result
                         (st\<lparr>future := Some (v, result), world := w2\<rparr>))))"

text \<open>
  The \<^verbatim>\<open>finally\<close> clause: the pool is shut down, waiting; then comes a second copy of the
  text that handles a completion, applied to the loop variable \<^verbatim>\<open>future\<close> as the \<^verbatim>\<open>try\<close> block
  left it. Its \<^verbatim>\<open>continue\<close> belongs to the loop over the batches.
\<close>

datatype finally_exit = Continue | Fallthrough

definition gui_finally :: "env \<Rightarrow> nat \<Rightarrow> state \<Rightarrow> error + finally_exit \<times> state" where
  "gui_finally E total_videos st =
     (let st1 = st\<lparr>world := log_events [Shutdown True] (world st)\<rparr>
      in case future st1 of
           None \<Rightarrow> Inl UnboundLocalError
         | Some (v, result) \<Rightarrow>
             if url v \<in> processed_urls st1 then Inr (Continue, st1)
             else Inr (Fallthrough, record_completion E total_videos v result st1))"

text \<open>
  The loop over the batches. \<open>stop\<close> is the parameter \<^verbatim>\<open>stop_event\<close>, a callable polled before
  each batch. A \<^verbatim>\<open>continue\<close> in the \<^verbatim>\<open>finally\<close> clause goes to the next batch, also when a
  \<^verbatim>\<open>return\<close> was pending (Python discards it); only when the clause runs to its end does
  the pending \<^verbatim>\<open>return\<close> take place or the text after the \<^verbatim>\<open>try\<close> statement run.
\<close>

function gui_batches ::
  "env \<Rightarrow> (nat \<Rightarrow> bool) option \<Rightarrow> video list \<Rightarrow> nat \<Rightarrow> nat \<Rightarrow> state
     \<Rightarrow> error + string list \<times> state" where
  "gui_batches E stop videos batch_size i st =
     (if batch_size = 0 \<or> length videos \<le> i then Inr (all_successful_downloads st, st)
      else
        (case poll stop (world st) of
           (stopped, w1) \<Rightarrow>
             if stopped then Inr (all_successful_downloads st, st\<lparr>world := w1\<rparr>)
             else
               (case gui_drain E (length videos)
                       (as_completed E (take batch_size (drop i videos)))
                       (st\<lparr>successful_downloads := [], failed_downloads := [],
                           world := log_events [Submit (take batch_size (drop i videos))] w1\<rparr>) of
                  (how, st2) \<Rightarrow>
                    (case gui_finally E (length videos) st2 of
                       Inl e \<Rightarrow> Inl e
                     | Inr (Continue, st3) \<Rightarrow>
                         gui_batches E stop videos batch_size (i + batch_size) st3
                     | Inr (Fallthrough, st3) \<Rightarrow>
                         (case how of
                            Returning r \<Rightarrow> Inr (r, st3)
                          | Drained \<Rightarrow>
                              gui_batches E stop videos batch_size (i + batch_size)
                                (st3\<lparr>all_successful_downloads :=
                                       all_successful_downloads st3 @ successful_downloads st3,
                                     all_failed_downloads :=
                                       all_failed_downloads st3 @ failed_downloads st3\<rparr>))))))"
  by pat_completeness auto
termination
  by (relation "measure (\<lambda>(E, stop, videos, batch_size, i, st). length videos - i)") auto

declare gui_batches.simps [simp del]

definition gui_parallel_download_videos ::
  "env \<Rightarrow> video list \<Rightarrow> int \<Rightarrow> (nat \<Rightarrow> bool) option \<Rightarrow> world
     \<Rightarrow> error + string list \<times> state" where
  "gui_parallel_download_videos E videos batch_size stop w =
     (if batch_size = 0 then Inl ValueError
      else if batch_size < 0 then Inr ([], init_state [] w)
      else gui_batches E stop videos (nat batch_size) 0 (init_state [] w))"

section \<open>Notions used in the statements\<close>

text \<open>
  The URLs an entry of the export contributes: the stripped, non-empty segments of its
  \<^verbatim>\<open>Link\<close>; and the first entry of a list that contributes a given URL.
\<close>

definition link_urls :: "raw_video \<Rightarrow> string list" where
  "link_urls rv =
     (case Link rv of
        None \<Rightarrow> []
      | Some l \<Rightarrow> filter (\<lambda>u. u \<noteq> []) (map strip (split_on CHR 0x0A l)))"

definition first_entry :: "string \<Rightarrow> raw_video list \<Rightarrow> raw_video option" where
  "first_entry u rvs = find (\<lambda>rv. u \<in> set (link_urls rv)) rvs"

definition example_export :: schema where
  "example_export =
     \<lparr>Video = Some \<lparr>Videos = Some \<lparr>VideoList = Some
        [\<lparr>Link = Some ''A'', Date = Some ''2023''\<rparr>,
         \<lparr>Link = Some [CHR ''B'', CHR 0x0A, CHR '' '', CHR ''A''], Date = Some ''2024''\<rparr>,
         \<lparr>Link = None, Date = Some ''2025''\<rparr>]\<rparr>\<rparr>\<rparr>"

definition example_env :: env where
  "example_env =
     \<lparr>download_dir = ''downloads'', md5_hexdigest = (\<lambda>u. ''0123456789abcdef''),
      http = (\<lambda>u n. Body [''xy'']), finish_time = (\<lambda>v. 0), stop_event = None,
      gui_callback = True\<rparr>"

text \<open>
  A response that delivers the whole body; the events of \<open>k\<close> requests for a URL with a
  pause of 2 between consecutive ones; a task and a world to run examples on.
\<close>

fun is_body :: "response \<Rightarrow> bool" where
  "is_body (Body chunks) = True"
| "is_body r = False"

fun fetch_trace :: "string \<Rightarrow> nat \<Rightarrow> event list" where
  "fetch_trace u 0 = []"
| "fetch_trace u (Suc 0) = [Request u]"
| "fetch_trace u (Suc (Suc k)) = Request u # Sleep 2 # fetch_trace u (Suc k)"

definition example_video :: "string \<Rightarrow> video" where
  "example_video u = \<lparr>url = u, date = [], video_type = ''posted'', is_personal = True\<rparr>"

definition empty_world :: world where
  "empty_world = \<lparr>files = Map.empty, trace = [], polls = 0\<rparr>"

definition empty_body_env :: env where
  "empty_body_env = example_env\<lparr>http := (\<lambda>u n. Body [])\<rparr>"

definition broken_once_env :: env where
  "broken_once_env =
     example_env\<lparr>http := (\<lambda>u n. if n = 0 then Broken [''xy''] else RequestFailed)\<rparr>"

definition broken_env :: env where
  "broken_env = example_env\<lparr>http := (\<lambda>u n. Broken [''xy''])\<rparr>"

definition verified_paths :: "event list \<Rightarrow> string list" where
  "verified_paths t = concat (map (\<lambda>e. case e of Verified p \<Rightarrow> [p] | _ \<Rightarrow> []) t)"

definition submitted :: "event list \<Rightarrow> video list list" where
  "submitted t = concat (map (\<lambda>e. case e of Submit b \<Rightarrow> [b] | _ \<Rightarrow> []) t)"

definition pool_events :: "event list \<Rightarrow> event list" where
  "pool_events t = filter (\<lambda>e. case e of Submit b \<Rightarrow> True | Shutdown wait \<Rightarrow> True | _ \<Rightarrow> False) t"

function slices :: "nat \<Rightarrow> 'a list \<Rightarrow> 'a list list" where
  "slices n xs = (if n = 0 \<or> xs = [] then [] else take n xs # slices n (drop n xs))"
  by pat_completeness auto

termination
  by (relation "measure (\<lambda>(n, xs). length xs)") auto

declare slices.simps [simp del]

definition all_yes :: "string list \<Rightarrow> bool" where
  "all_yes inp = list_all (\<lambda>a. lower a = ''y'') inp"

text \<open>The events a worker logs: requests and pauses.\<close>

fun fetch_event :: "event \<Rightarrow> bool" where
  "fetch_event (Request u) = True"
| "fetch_event (Sleep n) = True"
| "fetch_event e = False"

definition completion :: "env \<Rightarrow> video \<Rightarrow> state \<Rightarrow> state" where
  "completion E v st =
     (case download_video E (world st) v of
        (result, w1) \<Rightarrow>
          if url v \<in> processed_urls st then st\<lparr>world := w1\<rparr>
          else handle_result v result
                 (st\<lparr>world := w1, processed_urls := insert (url v) (processed_urls st)\<rparr>))"

text \<open>The loop over the batches, when every question is answered with yes.\<close>

definition process_all :: "env \<Rightarrow> video list list \<Rightarrow> state \<Rightarrow> state" where
  "process_all E bss st = foldl (\<lambda>s b. process_batch E b s) st bss"

definition distinct_hash_env :: env where
  "distinct_hash_env =
     example_env\<lparr>md5_hexdigest := (\<lambda>u. u @ ''0000000''),
                 http := (\<lambda>u n. if u = ''B'' then RequestFailed else Body [''xy''])\<rparr>"

definition second_try_env :: env where
  "second_try_env =
     example_env\<lparr>http := (\<lambda>u n. if n = 0 then RequestFailed else Body [''xy''])\<rparr>"

text \<open>The events of fetching and accounting; none of them concerns the pool.\<close>

fun quiet :: "event \<Rightarrow> bool" where
  "quiet (Request u) = True"
| "quiet (Sleep n) = True"
| "quiet (Verified p) = True"
| "quiet (Progress k n) = True"
| "quiet e = False"

text \<open>
  What holds after the loop over the completions \<open>cs\<close> ran to its end from the state \<open>st\<close>,
  and what holds when it was left by the cancellation branch.
\<close>

definition drained_ok :: "state \<Rightarrow> video list \<Rightarrow> state \<Rightarrow> bool" where
  "drained_ok st cs st2 =
     (processed_urls st2 = processed_urls st \<union> url ` set cs \<and>
      (cs = [] \<longrightarrow> future st2 = future st) \<and>
      (cs \<noteq> [] \<longrightarrow> (\<exists>res. future st2 = Some (last cs, res))) \<and>
      (\<exists>es. trace (world st2) = trace (world st) @ es \<and> list_all quiet es))"

definition cancelled_ok :: "state \<Rightarrow> video list \<Rightarrow> state \<Rightarrow> bool" where
  "cancelled_ok st cs st2 =
     (\<exists>cs1 v cs2 res es.
        cs = cs1 @ v # cs2 \<and> future st2 = Some (v, res) \<and>
        processed_urls st2 = processed_urls st \<union> url ` set cs1 \<and>
        trace (world st2) = trace (world st) @ es @ [CancelPending, Shutdown False, Cancelling] \<and>
        list_all quiet es)"

text \<open>A stop signal that is absent or never set.\<close>

definition never_set :: "(nat \<Rightarrow> bool) option \<Rightarrow> bool" where
  "never_set ev = (case ev of None \<Rightarrow> True | Some f \<Rightarrow> \<forall>k. \<not> f k)"

text \<open>
  The URLs requested in a trace. The events of one batch: its submission, what happens
  while its pool is open, and the shutdown of the pool. A stretch of events works on a
  batch when it holds no event of a pool and the URLs requested in it are exactly those
  of the tasks of the batch.
\<close>

definition requested :: "event list \<Rightarrow> string list" where
  "requested t = concat (map (\<lambda>e. case e of Request u \<Rightarrow> [u] | _ \<Rightarrow> []) t)"

definition batch_run :: "video list \<Rightarrow> event list \<Rightarrow> event list" where
  "batch_run b s = [Submit b] @ s @ [Shutdown True]"

definition works_on :: "video list \<Rightarrow> event list \<Rightarrow> bool" where
  "works_on b s = (pool_events s = [] \<and> set (requested s) = url ` set b)"

text \<open>
  Every task of the list has a destination path of its own, and no file exists there.
\<close>

definition fresh_paths :: "env \<Rightarrow> world \<Rightarrow> video list \<Rightarrow> bool" where
  "fresh_paths E w vs =
     (distinct (map (filepath E) vs) \<and>
      list_all (\<lambda>v. case filepath E v of None \<Rightarrow> False | Some fp \<Rightarrow> files w fp = None) vs)"

text \<open>
  The events of accounting for a completion: the check of the file and the progress
  report.
\<close>

fun accounting :: "event \<Rightarrow> bool" where
  "accounting (Verified p) = True"
| "accounting (Progress k n) = True"
| "accounting e = False"

section \<open>The extractor\<close>

lemma add_urls_spec:
  "add_urls rv t p us (vs, P) = (vs', P') \<Longrightarrow> url ` set vs = P \<Longrightarrow> distinct (map url vs) \<Longrightarrow>
   (\<exists>new. vs' = vs @ new \<and> distinct (map url vs') \<and> url ` set vs' = P' \<and>
      P' = P \<union> set (filter (\<lambda>u. u \<noteq> []) (map strip us)) \<and>
      (\<forall>v\<in>set new. date v = entry_date rv \<and> video_type v = t \<and> is_personal v = p \<and> url v \<notin> P))"
proof (induction us arbitrary: vs P)
  case Nil
  then show ?case by simp
next
  case (Cons u us)
  show ?case
  proof (cases "strip u = [] \<or> strip u \<in> P")
    case True
    with Cons.prems have "add_urls rv t p us (vs, P) = (vs', P')" by (simp add: Let_def)
    from Cons.IH[OF this Cons.prems(2) Cons.prems(3)] True show ?thesis by auto
  next
    case False
    let ?v = "\<lparr>url = strip u, date = entry_date rv, video_type = t, is_personal = p\<rparr>"
    from False Cons.prems have eq: "add_urls rv t p us (vs @ [?v], insert (strip u) P) = (vs', P')"
      by (simp add: Let_def)
    have a: "url ` set (vs @ [?v]) = insert (strip u) P" using Cons.prems(2) by auto
    have b: "distinct (map url (vs @ [?v]))" using Cons.prems(2,3) False by auto
    from Cons.IH[OF eq a b] obtain new where
      n: "vs' = (vs @ [?v]) @ new" "distinct (map url vs')" "url ` set vs' = P'"
         "P' = insert (strip u) P \<union> set (filter (\<lambda>u. u \<noteq> []) (map strip us))"
         "\<forall>v\<in>set new. date v = entry_date rv \<and> video_type v = t \<and> is_personal v = p \<and> url v \<notin> insert (strip u) P"
      by blast
    show ?thesis
      apply (rule exI[of _ "?v # new"])
      using n False by auto
  qed
qed

lemma add_video_spec:
  assumes "add_video rv t p (vs, P) = (vs', P')" "url ` set vs = P" "distinct (map url vs)"
  shows "\<exists>new. vs' = vs @ new \<and> distinct (map url vs') \<and> url ` set vs' = P' \<and>
      P' = P \<union> set (link_urls rv) \<and>
      (\<forall>v\<in>set new. date v = entry_date rv \<and> video_type v = t \<and> is_personal v = p \<and> url v \<notin> P)"
proof (cases "Link rv")
  case None
  with assms show ?thesis by (simp add: add_video_def link_urls_def)
next
  case (Some l)
  show ?thesis
  proof (cases "l = []")
    case True
    with Some assms show ?thesis by (simp add: add_video_def link_urls_def strip_def)
  next
    case False
    with Some assms(1) have "add_urls rv t p (split_on CHR 0x0A l) (vs, P) = (vs', P')"
      by (simp add: add_video_def)
    from add_urls_spec[OF this assms(2,3)] Some show ?thesis by (simp add: link_urls_def)
  qed
qed

lemma collect_snoc: "collect (rvs @ [rv]) = add_video rv ''posted'' True (collect rvs)"
  by (simp add: collect_def)

lemma find_snoc:
  "find P (xs @ [x]) = (case find P xs of None \<Rightarrow> (if P x then Some x else None) | Some y \<Rightarrow> Some y)"
  by (induction xs) auto

lemma collect_spec:
  "distinct (map url (fst (collect rvs))) \<and>
   url ` set (fst (collect rvs)) = snd (collect rvs) \<and>
   snd (collect rvs) = (\<Union>rv\<in>set rvs. set (link_urls rv)) \<and>
   (\<forall>v\<in>set (fst (collect rvs)). video_type v = ''posted'' \<and> is_personal v \<and>
       (\<exists>rv. first_entry (url v) rvs = Some rv \<and> date v = entry_date rv))"
proof (induction rvs rule: rev_induct)
  case Nil
  then show ?case by (simp add: collect_def)
next
  case (snoc rv rvs)
  obtain vs P where c: "collect rvs = (vs, P)" by (cases "collect rvs")
  obtain vs' P' where c': "add_video rv ''posted'' True (vs, P) = (vs', P')"
    by (cases "add_video rv ''posted'' True (vs, P)")
  from snoc c have ih: "distinct (map url vs)" "url ` set vs = P"
     "P = (\<Union>rv\<in>set rvs. set (link_urls rv))"
     "\<forall>v\<in>set vs. video_type v = ''posted'' \<and> is_personal v \<and>
       (\<exists>rv. first_entry (url v) rvs = Some rv \<and> date v = entry_date rv)"
    by simp_all
  from add_video_spec[OF c' ih(2) ih(1)] obtain new where
    n: "vs' = vs @ new" "distinct (map url vs')" "url ` set vs' = P'" "P' = P \<union> set (link_urls rv)"
       "\<forall>v\<in>set new. date v = entry_date rv \<and> video_type v = ''posted'' \<and> is_personal v = True \<and> url v \<notin> P"
    by blast
  have old: "\<exists>r. first_entry (url v) (rvs @ [rv]) = Some r \<and> date v = entry_date r" if "v \<in> set vs" for v
    using ih(4) that by (auto simp: first_entry_def find_snoc)
  have nw: "\<exists>r. first_entry (url v) (rvs @ [rv]) = Some r \<and> date v = entry_date r" if "v \<in> set new" for v
  proof -
    from n(5) that have a: "date v = entry_date rv" "url v \<notin> P" by auto
    from that n(1,3,4) a(2) have b: "url v \<in> set (link_urls rv)" by auto
    from a(2) ih(3) have "find (\<lambda>r. url v \<in> set (link_urls r)) rvs = None"
      by (auto simp: find_None_iff)
    with a b show ?thesis by (simp add: first_entry_def find_snoc)
  qed
  show ?case
    unfolding collect_snoc c c' using n ih old nw by auto
qed

lemma mset_sort_reverse: "mset (sort_reverse vs) = mset vs"
  by (simp add: sort_reverse_def)

lemma set_sort_reverse: "set (sort_reverse vs) = set vs"
  by (simp add: sort_reverse_def)

lemma distinct_urls_sort_reverse: "distinct (map url (sort_reverse vs)) = distinct (map url vs)"
proof -
  have "mset (map url (sort_reverse vs)) = mset (map url vs)"
    by (simp add: mset_sort_reverse)
  then show ?thesis by (rule mset_eq_imp_distinct_iff)
qed

lemma set_get_video_links: "set (get_video_links data) = set (fst (collect (video_list data)))"
  by (simp add: get_video_links_def set_sort_reverse)

text \<open>
  Claim C1. Whatever the export holds, no two tasks of the list returned by
  \<^verbatim>\<open>get_video_links\<close> have the same URL. The URLs of the list are exactly the non-empty
  stripped segments of the \<^verbatim>\<open>Link\<close> fields, and each task carries the date of the first entry
  (in the order of \<^verbatim>\<open>VideoList\<close>) in which its URL occurs: the first occurrence wins. Nothing
  here depends on the scheduler.
\<close>

theorem extracted_urls_unique:
  "distinct (map url (get_video_links data)) \<and>
   url ` set (get_video_links data) = (\<Union>rv\<in>set (video_list data). set (link_urls rv)) \<and>
   (\<forall>v\<in>set (get_video_links data).
      \<exists>rv. first_entry (url v) (video_list data) = Some rv \<and> date v = entry_date rv)"
  using collect_spec[of "video_list data"]
  by (simp add: get_video_links_def distinct_urls_sort_reverse set_sort_reverse)

lemma example_export_links:
  "get_video_links example_export =
     [\<lparr>url = ''B'', date = ''2024'', video_type = ''posted'', is_personal = True\<rparr>,
      \<lparr>url = ''A'', date = ''2023'', video_type = ''posted'', is_personal = True\<rparr>]"
  by (simp add: example_export_def get_video_links_def collect_def video_list_def add_video_def
      sort_reverse_def strip_def isspace_def entry_date_def Let_def)

theorem extracted_urls_unique_witness:
  "get_video_links example_export =
     [\<lparr>url = ''B'', date = ''2024'', video_type = ''posted'', is_personal = True\<rparr>,
      \<lparr>url = ''A'', date = ''2023'', video_type = ''posted'', is_personal = True\<rparr>] \<and>
   distinct (map url (get_video_links example_export)) \<and>
   (\<exists>rv. first_entry ''A'' (video_list example_export) = Some rv \<and> ''2023'' = entry_date rv)"
proof -
  let ?v = "\<lparr>url = ''A'', date = ''2023'', video_type = ''posted'', is_personal = True\<rparr>"
  have m: "?v \<in> set (get_video_links example_export)"
    by (simp add: example_export_links)
  from extracted_urls_unique[of example_export] m
  have "distinct (map url (get_video_links example_export)) \<and>
        (\<exists>rv. first_entry (url ?v) (video_list example_export) = Some rv \<and> date ?v = entry_date rv)"
    by blast
  then show ?thesis by (simp add: example_export_links)
qed

text \<open>
  Claim C10. Every task returned by \<^verbatim>\<open>get_video_links\<close> has \<^verbatim>\<open>is_personal = True\<close> and the type
  \<^verbatim>\<open>posted\<close>; the count of other videos in the summary is zero; and whenever the file name
  of such a task is defined it starts with \<^verbatim>\<open>personal_\<close>, so the prefix \<^verbatim>\<open>other\<close> is never
  used for a task of the extractor.
\<close>

theorem extracted_tasks_personal_posted:
  "(\<forall>v\<in>set (get_video_links data).
      is_personal v \<and> video_type v = ''posted'' \<and>
      (\<forall>f. filename E v = Some f \<longrightarrow> prefix ''personal_'' f)) \<and>
   personal_count (get_video_links data) = length (get_video_links data) \<and>
   other_count (get_video_links data) = 0"
proof -
  have a: "\<forall>v\<in>set (get_video_links data). is_personal v \<and> video_type v = ''posted''"
    using collect_spec[of "video_list data"] by (simp add: set_get_video_links)
  have b: "prefix ''personal_'' f" if "is_personal v" "filename E v = Some f" for v f
    using that by (auto simp: filename_def split: option.splits)
  from a have c: "filter is_personal (get_video_links data) = get_video_links data"
    by (simp add: filter_id_conv)
  show ?thesis using a b c by (auto simp: personal_count_def other_count_def)
qed

theorem extracted_tasks_personal_posted_witness:
  "\<lparr>url = ''B'', date = ''2024'', video_type = ''posted'', is_personal = True\<rparr>
     \<in> set (get_video_links example_export) \<and>
   filename example_env \<lparr>url = ''B'', date = ''2024'', video_type = ''posted'', is_personal = True\<rparr>
     = Some ''personal_2024_posted_01234567.mp4'' \<and>
   prefix ''personal_'' ''personal_2024_posted_01234567.mp4'' \<and>
   other_count (get_video_links example_export) = 0"
proof -
  let ?v = "\<lparr>url = ''B'', date = ''2024'', video_type = ''posted'', is_personal = True\<rparr>"
  have m: "?v \<in> set (get_video_links example_export)"
    by (simp add: example_export_links)
  have f: "filename example_env ?v = Some ''personal_2024_posted_01234567.mp4''"
    by (simp add: filename_def example_env_def date_str_def split_def isspace_def extension_def
        is_image_def image_extensions_def lower_def lower_char_def)
  from extracted_tasks_personal_posted[of example_export example_env] m f
  have "prefix ''personal_'' ''personal_2024_posted_01234567.mp4'' \<and>
        other_count (get_video_links example_export) = 0"
    by blast
  with m f show ?thesis by simp
qed

section \<open>The destination path\<close>

lemma contains_iff_sublist: "contains sub s \<longleftrightarrow> sublist sub s"
  by (induction s) (auto simp: sublist_Cons_right)

lemma is_image_iff: "is_image u \<longleftrightarrow> (\<exists>ext\<in>set image_extensions. sublist ext (lower u))"
  by (simp add: is_image_def list_ex_iff contains_iff_sublist)

lemma suffix_path_join: "suffix b (path_join a b)"
  by (simp add: path_join_def suffix_def)

lemma filepath_suffix_extension:
  assumes "filepath E v = Some p"
  shows "suffix (extension (url v)) p"
proof -
  from assms obtain f where f: "filename E v = Some f" and p: "p = path_join (download_dir E) f"
    by (auto simp: filepath_def)
  from f have "suffix (extension (url v)) f"
    by (auto simp: filename_def suffix_def split: option.splits)
  with p show ?thesis
    using suffix_path_join[of f "download_dir E"] by (metis suffix_order.trans)
qed

lemma attempts_result: "attempts E u fp k w = (r, w') \<Longrightarrow> r = None \<or> r = Some fp"
proof (induction E u fp k w arbitrary: r w' rule: attempts.induct)
  case (1 E u fp attempt w)
  note eq = "1.prems"[unfolded attempts.simps[of E u fp attempt w]]
  from eq "1.IH" show ?case
    by (auto split: if_splits response.splits)
qed

lemma download_video_result: "fst (download_video E w v) = None \<or> fst (download_video E w v) = filepath E v"
proof (cases "filepath E v")
  case None
  then show ?thesis by (simp add: download_video_def)
next
  case (Some fp)
  obtain r w' where a: "attempts E (url v) fp 0 w = (r, w')" by (cases "attempts E (url v) fp 0 w")
  from attempts_result[OF a] a Some show ?thesis by (auto simp: download_video_def)
qed

lemma gui_download_video_result:
  "fst (gui_download_video E w v) = None \<or> fst (gui_download_video E w v) = filepath E v"
proof (cases "poll (stop_event E) w")
  case (Pair stop w1)
  then show ?thesis
    using download_video_result[of E w1 v] by (simp add: gui_download_video_def)
qed

text \<open>
  Claim C7, as amended. The extension is chosen by containment, not by suffix: the path gets
  \<^verbatim>\<open>.jpg\<close> exactly when the lower-cased URL contains one of \<^verbatim>\<open>.jpg\<close>, \<^verbatim>\<open>.jpeg\<close>, \<^verbatim>\<open>.png\<close>, \<^verbatim>\<open>.webp\<close>
  somewhere, and \<^verbatim>\<open>.mp4\<close> otherwise. In particular a URL that ends in one of the four (in any
  letter case) gets \<^verbatim>\<open>.jpg\<close>. The destination path ends in the extension chosen, and it is a
  function of the task and the download directory alone: whatever the state of the
  world, a worker that returns a path returns that one.
\<close>

theorem extension_by_containment:
  "extension (url v) =
     (if \<exists>ext\<in>set image_extensions. sublist ext (lower (url v)) then ''.jpg'' else ''.mp4'') \<and>
   ((\<exists>ext\<in>set image_extensions. suffix ext (lower (url v))) \<longrightarrow> extension (url v) = ''.jpg'') \<and>
   (\<forall>p. filepath E v = Some p \<longrightarrow> suffix (extension (url v)) p) \<and>
   (\<forall>w. fst (download_video E w v) = None \<or> fst (download_video E w v) = filepath E v) \<and>
   (\<forall>w. fst (gui_download_video E w v) = None \<or> fst (gui_download_video E w v) = filepath E v)"
proof -
  have a: "extension (url v) =
     (if \<exists>ext\<in>set image_extensions. sublist ext (lower (url v)) then ''.jpg'' else ''.mp4'')"
    by (simp add: extension_def is_image_iff)
  have b: "extension (url v) = ''.jpg''" if "\<exists>ext\<in>set image_extensions. suffix ext (lower (url v))"
    using that a by auto
  show ?thesis
    using a b filepath_suffix_extension download_video_result gui_download_video_result
    by blast
qed

lemma lower_example: "lower ''http://h/a.PNG'' = ''http://h/a.png''"
  by (simp add: lower_def lower_char_def)

theorem extension_by_containment_witness:
  "suffix ''.png'' (lower ''http://h/a.PNG'') \<and>
   extension ''http://h/a.PNG'' = ''.jpg'' \<and>
   filepath example_env (example_video ''http://h/a.PNG'') =
     Some ''downloads/personal_unknown_date_posted_01234567.jpg'' \<and>
   suffix ''.jpg'' ''downloads/personal_unknown_date_posted_01234567.jpg''"
proof -
  let ?v = "example_video ''http://h/a.PNG''"
  have u: "url ?v = ''http://h/a.PNG''" by (simp add: example_video_def)
  have s: "suffix ''.png'' (lower (url ?v))"
    by (simp add: u lower_example suffix_def)
  then have h: "\<exists>ext\<in>set image_extensions. suffix ext (lower (url ?v))"
    by (auto simp: image_extensions_def)
  from extension_by_containment[of ?v example_env] h
  have e: "extension (url ?v) = ''.jpg''"
    and f: "\<forall>p. filepath example_env ?v = Some p \<longrightarrow> suffix (extension (url ?v)) p"
    by blast+
  have p: "filepath example_env ?v = Some ''downloads/personal_unknown_date_posted_01234567.jpg''"
    by (simp add: filepath_def filename_def e date_str_def path_join_def example_env_def)
       (simp add: example_video_def)
  from f p e have "suffix ''.jpg'' ''downloads/personal_unknown_date_posted_01234567.jpg''"
    by simp
  with s e p u show ?thesis by simp
qed

text \<open>
  Claim C7 as stated fails: this URL ends in \<^verbatim>\<open>.mp4\<close>, none of the four image suffixes, and
  its task is stored with the image extension.
\<close>

theorem extension_not_by_suffix:
  "\<not> (\<exists>ext\<in>set image_extensions. suffix ext (lower ''http://h/a.png.mp4'')) \<and>
   filepath example_env (example_video ''http://h/a.png.mp4'') =
     Some ''downloads/personal_unknown_date_posted_01234567.jpg''"
  by (simp add: image_extensions_def suffix_to_prefix lower_def lower_char_def filepath_def
      filename_def date_str_def path_join_def example_env_def example_video_def extension_def
      is_image_def)

lemma concat_nonempty_chunks: "concat (filter (\<lambda>c. c \<noteq> []) chunks) = concat chunks"
  by (induction chunks) auto

lemma download_video_skip:
  "filepath E v = Some fp \<Longrightarrow> files w fp \<noteq> None \<Longrightarrow> download_video E w v = (Some fp, w)"
  by (auto simp: download_video_def)

lemma attempts_local:
  "attempts E u fp k w = (r, w') \<Longrightarrow>
     polls w' = polls w \<and> (\<forall>q. q \<noteq> fp \<longrightarrow> files w' q = files w q) \<and>
     prefix (trace w) (trace w')"
proof (induction E u fp k w arbitrary: r w' rule: attempts.induct)
  case (1 E u fp attempt w)
  note eq = "1.prems"[unfolded attempts.simps[of E u fp attempt w]]
  show ?case
  proof (cases "max_retries \<le> attempt")
    case True
    with eq show ?thesis by simp
  next
    case False
    show ?thesis
    proof (cases "http E u (length (trace w))")
      case RequestFailed
      with eq False "1.IH"(1)[OF False RequestFailed] show ?thesis
        by (auto simp: log_events_def split: if_splits dest: append_prefixD)
    next
      case OpenFailed
      with eq False "1.IH"(2)[OF False OpenFailed] show ?thesis
        by (auto simp: log_events_def split: if_splits dest: append_prefixD)
    next
      case (Body chunks)
      with eq False show ?thesis
        by (auto simp: log_events_def write_chunks_def)
    next
      case (Broken chunks)
      with eq False "1.IH"(3)[OF False Broken] show ?thesis
        by (auto simp: log_events_def write_chunks_def split: if_splits dest: append_prefixD)
    qed
  qed
qed

lemma attempts_never_body:
  "\<forall>n. \<not> is_body (http E u n) \<Longrightarrow> fst (attempts E u fp k w) = None"
proof (induction E u fp k w rule: attempts.induct)
  case (1 E u fp attempt w)
  from "1.prems" have nb: "\<not> is_body (http E u (length (trace w)))" by blast
  show ?case
  proof (cases "max_retries \<le> attempt")
    case True
    then show ?thesis by (subst attempts.simps) simp
  next
    case False
    show ?thesis
    proof (cases "http E u (length (trace w))")
      case RequestFailed
      with False "1.IH"(1)[OF False RequestFailed _ "1.prems"] show ?thesis
        by (subst attempts.simps) auto
    next
      case OpenFailed
      with False "1.IH"(2)[OF False OpenFailed _ "1.prems"] show ?thesis
        by (subst attempts.simps) auto
    next
      case (Body chunks)
      with nb show ?thesis by simp
    next
      case (Broken chunks)
      with False "1.IH"(3)[OF False Broken _ "1.prems"] show ?thesis
        by (subst attempts.simps) auto
    qed
  qed
qed

lemma download_video_local:
  assumes "download_video E w v = (r, w')"
  shows "polls w' = polls w \<and> prefix (trace w) (trace w') \<and>
         (\<forall>q. filepath E v \<noteq> Some q \<longrightarrow> files w' q = files w q)"
proof (cases "filepath E v")
  case None
  with assms show ?thesis by (simp add: download_video_def)
next
  case (Some fp)
  show ?thesis
  proof (cases "files w fp")
    case None
    with Some assms have "attempts E (url v) fp 0 w = (r, w')"
      by (simp add: download_video_def)
    from attempts_local[OF this] Some show ?thesis by auto
  next
    case (Some c)
    with \<open>filepath E v = Some fp\<close> assms show ?thesis by (simp add: download_video_def)
  qed
qed

lemma download_video_never_body:
  "\<forall>n. \<not> is_body (http E (url v) n) \<Longrightarrow> filepath E v = Some fp \<Longrightarrow> files w fp = None \<Longrightarrow>
   fst (download_video E w v) = None"
  by (simp add: download_video_def attempts_never_body)

text \<open>The loop makes at most three attempts; the events of a call that starts them.\<close>

lemma attempts_fetch_trace:
  assumes "attempts E u fp 0 w = (r, w')"
  shows "\<exists>k\<in>{1, 2, 3}. trace w' = trace w @ fetch_trace u k \<and> (r = None \<longrightarrow> k = 3)"
  using assms
  by (auto simp: attempts.simps max_retries_def log_events_def write_chunks_def
        numeral_3_eq_3 numeral_2_eq_2
      split: response.splits)

lemma attempts_all_fail:
  assumes "\<not> is_body (http E u (length (trace w)))"
    and "\<not> is_body (http E u (length (trace w) + 2))"
    and "\<not> is_body (http E u (length (trace w) + 4))"
  shows "fst (attempts E u fp 0 w) = None \<and>
         trace (snd (attempts E u fp 0 w)) = trace w @ fetch_trace u 3"
  using assms
  by (auto simp: attempts.simps max_retries_def log_events_def write_chunks_def
        eval_nat_numeral
      split: response.splits)

text \<open>
  Attempts are made one after the other, with a pause of 2 in between, until one is
  answered with a body; the call fails only after the third attempt has failed.
\<close>

lemma attempts_until_success:
  assumes "attempts E u fp 0 w = (r, w')"
  shows "\<exists>k\<in>{1, 2, 3}. trace w' = trace w @ fetch_trace u k \<and>
           (\<forall>j<k - 1. \<not> is_body (http E u (length (trace w) + 2 * j))) \<and>
           (if is_body (http E u (length (trace w) + 2 * (k - 1)))
            then r = Some fp else r = None \<and> k = 3)"
proof -
  let ?t = "length (trace w)"
  show ?thesis
  proof (cases "is_body (http E u ?t)")
    case True
    with assms have "trace w' = trace w @ fetch_trace u 1 \<and> r = Some fp"
      by (auto simp: attempts.simps max_retries_def log_events_def write_chunks_def
          split: response.splits)
    with True show ?thesis by simp
  next
    case b0: False
    show ?thesis
    proof (cases "is_body (http E u (?t + 2))")
      case True
      with b0 assms have "trace w' = trace w @ fetch_trace u 2 \<and> r = Some fp"
        by (auto simp: attempts.simps max_retries_def log_events_def write_chunks_def
            numeral_2_eq_2 split: response.splits)
      with True b0 show ?thesis by simp
    next
      case b1: False
      from b0 b1 assms have x: "trace w' = trace w @ fetch_trace u 3 \<and>
         (if is_body (http E u (?t + 4)) then r = Some fp else r = None)"
        by (auto simp: attempts.simps max_retries_def log_events_def write_chunks_def
            eval_nat_numeral split: response.splits)
      have "\<forall>j<(3::nat) - 1. \<not> is_body (http E u (?t + 2 * j))"
        using b0 b1 by (auto simp: less_Suc_eq numeral_2_eq_2)
      with x show ?thesis by simp
    qed
  qed
qed

text \<open>
  What a call leaves at the destination path when attempt \<open>j\<close> (counted from 0) breaks after
  the chunks were written and no later attempt opens the file.
\<close>

lemma attempts_partial_write:
  assumes "j < 3"
    and "\<forall>i<j. \<not> is_body (http E u (length (trace w) + 2 * i))"
    and "http E u (length (trace w) + 2 * j) = Broken chunks"
    and "\<forall>i<3. j < i \<longrightarrow> http E u (length (trace w) + 2 * i) \<in> {RequestFailed, OpenFailed}"
  shows "fst (attempts E u fp 0 w) = None \<and>
         files (snd (attempts E u fp 0 w)) fp = Some (concat chunks)"
proof -
  let ?t = "length (trace w)"
  from assms(1) consider "j = 0" | "j = 1" | "j = 2" by arith
  then show ?thesis
  proof cases
    case 1
    from assms(3) 1 have r0: "http E u ?t = Broken chunks" by simp
    from assms(4)[rule_format, of 1] 1
    have r1: "http E u (?t + 2) = RequestFailed \<or> http E u (?t + 2) = OpenFailed" by simp
    from assms(4)[rule_format, of 2] 1
    have r2: "http E u (?t + 4) = RequestFailed \<or> http E u (?t + 4) = OpenFailed" by simp
    from r0 r1 r2 show ?thesis
      by (auto simp: attempts.simps max_retries_def log_events_def write_chunks_def
          eval_nat_numeral concat_nonempty_chunks)
  next
    case 2
    from assms(2)[rule_format, of 0] 2 have r0: "\<not> is_body (http E u ?t)" by simp
    from assms(3) 2 have r1: "http E u (?t + 2) = Broken chunks" by simp
    from assms(4)[rule_format, of 2] 2
    have r2: "http E u (?t + 4) = RequestFailed \<or> http E u (?t + 4) = OpenFailed" by simp
    from r0 r1 r2 show ?thesis
      by (auto simp: attempts.simps max_retries_def log_events_def write_chunks_def
          eval_nat_numeral concat_nonempty_chunks split: response.splits)
  next
    case 3
    from assms(2)[rule_format, of 0] 3 have r0: "\<not> is_body (http E u ?t)" by simp
    from assms(2)[rule_format, of 1] 3 have r1: "\<not> is_body (http E u (?t + 2))" by simp
    from assms(3) 3 have r2: "http E u (?t + 4) = Broken chunks" by simp
    from r0 r1 r2 show ?thesis
      by (auto simp: attempts.simps max_retries_def log_events_def write_chunks_def
          eval_nat_numeral concat_nonempty_chunks split: response.splits)
  qed
qed

lemma filepath_example_A:
  "filepath (example_env\<lparr>http := h\<rparr>) (example_video ''A'') =
     Some ''downloads/personal_unknown_date_posted_01234567.mp4''"
  by (simp add: filepath_def filename_def date_str_def extension_def is_image_def
      image_extensions_def lower_def lower_char_def path_join_def example_env_def
      example_video_def)

text \<open>
  Claim C3 at a failing input. The worker skips the fetch whenever a file exists at the
  destination path, whatever its size. Here the server answers the first call with an
  empty body: the call makes one request and leaves an empty file, which the scheduler's
  check rejects. The second call, in the world the first one left, returns the path and
  makes no request, although no file of size greater than 0 exists at that path.
\<close>

theorem empty_file_is_never_fetched_again:
  "(case download_video empty_body_env empty_world (example_video ''A'') of
      (r1, w1) \<Rightarrow>
        r1 = Some ''downloads/personal_unknown_date_posted_01234567.mp4'' \<and>
        trace w1 = [Request ''A''] \<and>
        files w1 ''downloads/personal_unknown_date_posted_01234567.mp4'' = Some [] \<and>
        \<not> verify w1 ''downloads/personal_unknown_date_posted_01234567.mp4'' \<and>
        (case download_video empty_body_env w1 (example_video ''A'') of
           (r2, w2) \<Rightarrow>
             r2 = Some ''downloads/personal_unknown_date_posted_01234567.mp4'' \<and>
             trace w2 = [Request ''A'']))"
  by (simp add: download_video_def empty_body_env_def filepath_example_A attempts.simps
      max_retries_def log_events_def write_chunks_def verify_def empty_world_def)
     (simp add: example_env_def example_video_def log_events_def write_chunks_def)

text \<open>
  Claim C8, as amended. The worker writes straight to the destination path and removes
  nothing. Let the file be absent, let attempt \<open>j\<close> of the call (counted from 0) be reached
  and break after the chunks \<open>chunks\<close> were written, and let every later attempt of the call
  fail before it opens the file. Then the call returns \<^verbatim>\<open>None\<close> and leaves a file holding
  exactly those chunks at the destination path, and touches no other path; if at least
  one byte was written, the scheduler's check accepts the file and every later call for
  the task returns the path without a request.
\<close>

theorem partial_write_stays_at_destination:
  assumes "filepath E v = Some fp"
    and "files w fp = None"
    and "j < 3"
    and "\<forall>i<j. \<not> is_body (http E (url v) (length (trace w) + 2 * i))"
    and "http E (url v) (length (trace w) + 2 * j) = Broken chunks"
    and "\<forall>i<3. j < i \<longrightarrow>
           http E (url v) (length (trace w) + 2 * i) \<in> {RequestFailed, OpenFailed}"
  shows "fst (download_video E w v) = None \<and>
         files (snd (download_video E w v)) fp = Some (concat chunks) \<and>
         (\<forall>q. q \<noteq> fp \<longrightarrow> files (snd (download_video E w v)) q = files w q) \<and>
         (concat chunks \<noteq> [] \<longrightarrow>
            verify (snd (download_video E w v)) fp \<and>
            (\<forall>E'. filepath E' v = Some fp \<longrightarrow>
               download_video E' (snd (download_video E w v)) v =
                 (Some fp, snd (download_video E w v))))"
proof -
  from assms(1,2) have a: "download_video E w v = attempts E (url v) fp 0 w"
    by (simp add: download_video_def)
  note b = attempts_partial_write[OF assms(3-6), of fp]
  obtain r w' where e: "attempts E (url v) fp 0 w = (r, w')"
    by (cases "attempts E (url v) fp 0 w")
  from attempts_local[OF e] have l: "\<forall>q. q \<noteq> fp \<longrightarrow> files w' q = files w q" by simp
  from b e have r: "r = None" and f: "files w' fp = Some (concat chunks)" by simp_all
  have s: "concat chunks \<noteq> [] \<longrightarrow>
            verify w' fp \<and>
            (\<forall>E'. filepath E' v = Some fp \<longrightarrow> download_video E' w' v = (Some fp, w'))"
    using f by (simp add: verify_def download_video_def)
  from r f l s show ?thesis unfolding a e by simp
qed

theorem partial_write_stays_at_destination_witness:
  "filepath broken_once_env (example_video ''A'') =
     Some ''downloads/personal_unknown_date_posted_01234567.mp4'' \<and>
   files empty_world ''downloads/personal_unknown_date_posted_01234567.mp4'' = None \<and>
   http broken_once_env ''A'' 0 = Broken [''xy''] \<and>
   http broken_once_env ''A'' 2 = RequestFailed \<and>
   http broken_once_env ''A'' 4 = RequestFailed \<and>
   fst (download_video broken_once_env empty_world (example_video ''A'')) = None \<and>
   files (snd (download_video broken_once_env empty_world (example_video ''A'')))
     ''downloads/personal_unknown_date_posted_01234567.mp4'' = Some ''xy'' \<and>
   verify (snd (download_video broken_once_env empty_world (example_video ''A'')))
     ''downloads/personal_unknown_date_posted_01234567.mp4'' \<and>
   download_video example_env
     (snd (download_video broken_once_env empty_world (example_video ''A'')))
     (example_video ''A'') =
       (Some ''downloads/personal_unknown_date_posted_01234567.mp4'',
        snd (download_video broken_once_env empty_world (example_video ''A'')))"
proof -
  let ?v = "example_video ''A''"
  let ?p = "''downloads/personal_unknown_date_posted_01234567.mp4''"
  have p: "filepath broken_once_env ?v = Some ?p"
    by (simp add: broken_once_env_def filepath_example_A)
  have p': "filepath example_env ?v = Some ?p"
    using filepath_example_A[of "http example_env"] by simp
  have f: "files empty_world ?p = None"
    by (simp add: empty_world_def)
  have u: "url ?v = ''A''" by (simp add: example_video_def)
  have t: "length (trace empty_world) = 0" by (simp add: empty_world_def)
  have h: "http broken_once_env ''A'' 0 = Broken [''xy'']"
    "http broken_once_env ''A'' 2 = RequestFailed"
    "http broken_once_env ''A'' 4 = RequestFailed"
    by (simp_all add: broken_once_env_def example_env_def)
  have j: "(0::nat) < 3" by simp
  have h0: "\<forall>i<0::nat. \<not> is_body (http broken_once_env (url ?v) (length (trace empty_world) + 2 * i))"
    by simp
  have h1: "http broken_once_env (url ?v) (length (trace empty_world) + 2 * 0) = Broken [''xy'']"
    by (simp add: broken_once_env_def example_env_def t)
  have h2: "\<forall>i<3. 0 < i \<longrightarrow>
      http broken_once_env (url ?v) (length (trace empty_world) + 2 * i)
        \<in> {RequestFailed, OpenFailed}"
    by (simp add: broken_once_env_def example_env_def t)
  note th = partial_write_stays_at_destination[OF p f j h0 h1 h2]
  have c: "concat [''xy''] = ''xy''" by simp
  from th have 1: "fst (download_video broken_once_env empty_world ?v) = None"
    by (rule conjunct1)
  from th have 2: "files (snd (download_video broken_once_env empty_world ?v)) ?p = Some ''xy''"
    unfolding c by simp
  from th have i: "''xy'' \<noteq> [] \<longrightarrow>
      verify (snd (download_video broken_once_env empty_world ?v)) ?p \<and>
      (\<forall>E'. filepath E' ?v = Some ?p \<longrightarrow>
         download_video E' (snd (download_video broken_once_env empty_world ?v)) ?v =
           (Some ?p, snd (download_video broken_once_env empty_world ?v)))"
    unfolding c by simp
  then have 3: "verify (snd (download_video broken_once_env empty_world ?v)) ?p"
    and 4: "download_video example_env (snd (download_video broken_once_env empty_world ?v)) ?v =
           (Some ?p, snd (download_video broken_once_env empty_world ?v))"
    using p' by simp_all
  from p f h 1 2 3 4 show ?thesis by (intro conjI)
qed

text \<open>
  Claim C8 as stated fails: every attempt breaks after two bytes were written; the call
  fails and leaves a file of two bytes at the destination path, which passes the
  scheduler's check and which a later call returns as downloaded without a request.
\<close>

theorem broken_download_treated_as_downloaded:
  "(case download_video broken_env empty_world (example_video ''A'') of
      (r1, w1) \<Rightarrow>
        r1 = None \<and>
        files w1 ''downloads/personal_unknown_date_posted_01234567.mp4'' = Some ''xy'' \<and>
        verify w1 ''downloads/personal_unknown_date_posted_01234567.mp4'' \<and>
        (case download_video example_env w1 (example_video ''A'') of
           (r2, w2) \<Rightarrow>
             r2 = Some ''downloads/personal_unknown_date_posted_01234567.mp4'' \<and>
             trace w2 = trace w1))"
  by (simp add: download_video_def broken_env_def filepath_example_A
      filepath_example_A[of "http example_env", simplified] attempts.simps
      max_retries_def log_events_def write_chunks_def verify_def empty_world_def)

lemma attempts_events:
  "attempts E u fp k w = (r, w') \<Longrightarrow> \<exists>es. trace w' = trace w @ es \<and> list_all fetch_event es"
proof (induction E u fp k w arbitrary: r w' rule: attempts.induct)
  case (1 E u fp attempt w)
  note eq = "1.prems"[unfolded attempts.simps[of E u fp attempt w]]
  show ?case
  proof (cases "max_retries \<le> attempt")
    case True
    with eq show ?thesis by simp
  next
    case False
    show ?thesis
    proof (cases "http E u (length (trace w))")
      case RequestFailed
      with eq False "1.IH"(1)[OF False RequestFailed] show ?thesis
        by (fastforce simp: log_events_def split: if_splits)
    next
      case OpenFailed
      with eq False "1.IH"(2)[OF False OpenFailed] show ?thesis
        by (fastforce simp: log_events_def split: if_splits)
    next
      case (Body chunks)
      with eq False show ?thesis
        by (auto simp: log_events_def write_chunks_def)
    next
      case (Broken chunks)
      with eq False "1.IH"(3)[OF False Broken] show ?thesis
        by (fastforce simp: log_events_def write_chunks_def split: if_splits)
    qed
  qed
qed

lemma download_video_events:
  assumes "download_video E w v = (r, w')"
  shows "\<exists>es. trace w' = trace w @ es \<and> list_all fetch_event es"
proof (cases "filepath E v")
  case None
  with assms show ?thesis by (simp add: download_video_def)
next
  case (Some fp)
  show ?thesis
  proof (cases "files w fp")
    case None
    with Some assms have "attempts E (url v) fp 0 w = (r, w')"
      by (simp add: download_video_def)
    from attempts_events[OF this] show ?thesis .
  next
    case (Some c)
    with \<open>filepath E v = Some fp\<close> assms show ?thesis by (simp add: download_video_def)
  qed
qed

lemma verified_paths_append [simp]: "verified_paths (s @ t) = verified_paths s @ verified_paths t"
  by (simp add: verified_paths_def)

lemma submitted_append [simp]: "submitted (s @ t) = submitted s @ submitted t"
  by (simp add: submitted_def)

lemma pool_events_append [simp]: "pool_events (s @ t) = pool_events s @ pool_events t"
  by (simp add: pool_events_def)

lemma fetch_events_silent:
  "list_all fetch_event es \<Longrightarrow> verified_paths es = [] \<and> submitted es = [] \<and> pool_events es = []"
proof (induction es)
  case Nil
  then show ?case by (simp add: verified_paths_def submitted_def pool_events_def)
next
  case (Cons e es)
  then show ?case
    by (cases e) (simp_all add: verified_paths_def submitted_def pool_events_def)
qed

text \<open>What one completion does to the state of the command-line scheduler.\<close>

lemma handle_result_cases:
  "(\<exists>p. result = Some p \<and> handle_result v result st =
          st\<lparr>successful_downloads := successful_downloads st @ [p],
             world := log_events [Verified p] (world st)\<rparr>) \<or>
   handle_result v result st = st\<lparr>failed_downloads := failed_downloads st @ [url v]\<rparr>"
  by (auto simp: handle_result_def split: option.splits)

lemma handle_result_None:
  "handle_result v None st = st\<lparr>failed_downloads := failed_downloads st @ [url v]\<rparr>"
  by (simp add: handle_result_def)

lemma drain_foldl: "drain E cs st = foldl (\<lambda>s v. completion E v s) st cs"
  by (induction cs arbitrary: st) (auto simp: completion_def split: prod.splits)

lemma completion_frame:
  "all_successful_downloads (completion E v st) = all_successful_downloads st \<and>
   all_failed_downloads (completion E v st) = all_failed_downloads st \<and>
   stdin (completion E v st) = stdin st \<and>
   processed_urls (completion E v st) = insert (url v) (processed_urls st)"
proof -
  obtain r w1 where d: "download_video E (world st) v = (r, w1)"
    by (cases "download_video E (world st) v")
  show ?thesis
    using handle_result_cases[of r v "st\<lparr>world := w1, processed_urls := insert (url v) (processed_urls st)\<rparr>"]
    by (auto simp: completion_def d)
qed

lemma completion_stdin:
  "completion E v (st\<lparr>stdin := x\<rparr>) = (completion E v st)\<lparr>stdin := x\<rparr>"
  by (auto simp: completion_def handle_result_def split: prod.splits option.splits)

lemma completion_files:
  "filepath E v \<noteq> Some q \<Longrightarrow> files (world (completion E v st)) q = files (world st) q"
proof -
  assume a: "filepath E v \<noteq> Some q"
  obtain r w1 where d: "download_video E (world st) v = (r, w1)"
    by (cases "download_video E (world st) v")
  from download_video_local[OF d] a have f: "files w1 q = files (world st) q" by simp
  show ?thesis
    using handle_result_cases[of r v "st\<lparr>world := w1, processed_urls := insert (url v) (processed_urls st)\<rparr>"] f
    by (auto simp: completion_def d log_events_def)
qed

lemma completion_lists:
  "\<exists>ps fs es.
     successful_downloads (completion E v st) = successful_downloads st @ ps \<and>
     failed_downloads (completion E v st) = failed_downloads st @ fs \<and>
     trace (world (completion E v st)) = trace (world st) @ es \<and>
     verified_paths es = ps \<and> submitted es = [] \<and> pool_events es = [] \<and>
     set fs \<subseteq> {url v} \<and> (url v \<in> processed_urls st \<longrightarrow> fs = [])"
proof -
  obtain r w1 where d: "download_video E (world st) v = (r, w1)"
    by (cases "download_video E (world st) v")
  from download_video_events[OF d] obtain es where
    es: "trace w1 = trace (world st) @ es" "list_all fetch_event es" by blast
  note q = fetch_events_silent[OF es(2)]
  show ?thesis
  proof (cases "url v \<in> processed_urls st")
    case True
    then show ?thesis using es q by (auto simp: completion_def d)
  next
    case False
    let ?st1 = "st\<lparr>world := w1, processed_urls := insert (url v) (processed_urls st)\<rparr>"
    from handle_result_cases[of r v ?st1] show ?thesis
    proof
      assume "\<exists>p. r = Some p \<and> handle_result v r ?st1 =
          ?st1\<lparr>successful_downloads := successful_downloads ?st1 @ [p],
             world := log_events [Verified p] (world ?st1)\<rparr>"
      then obtain p where p: "handle_result v r ?st1 =
          ?st1\<lparr>successful_downloads := successful_downloads ?st1 @ [p],
             world := log_events [Verified p] (world ?st1)\<rparr>" by blast
      show ?thesis
        apply (rule exI[of _ "[p]"], rule exI[of _ "[]"], rule exI[of _ "es @ [Verified p]"])
        using False es q p
        by (simp add: completion_def d log_events_def)
           (simp add: verified_paths_def submitted_def pool_events_def)
    next
      assume f: "handle_result v r ?st1 = ?st1\<lparr>failed_downloads := failed_downloads ?st1 @ [url v]\<rparr>"
      show ?thesis
        apply (rule exI[of _ "[]"], rule exI[of _ "[url v]"], rule exI[of _ "es"])
        using False es q f
        by (simp add: completion_def d)
    qed
  qed
qed

lemma completion_failure:
  assumes "url v \<notin> processed_urls st" "fst (download_video E (world st) v) = None"
  shows "failed_downloads (completion E v st) = failed_downloads st @ [url v]"
  using assms by (auto simp: completion_def handle_result_None split: prod.splits)

text \<open>The loop over the completions of a batch.\<close>

lemma drain_frame:
  "all_successful_downloads (drain E cs st) = all_successful_downloads st \<and>
   all_failed_downloads (drain E cs st) = all_failed_downloads st \<and>
   stdin (drain E cs st) = stdin st \<and>
   processed_urls (drain E cs st) = processed_urls st \<union> url ` set cs"
  unfolding drain_foldl
  by (induction cs arbitrary: st) (auto simp: completion_frame)

lemma drain_stdin: "drain E cs (st\<lparr>stdin := x\<rparr>) = (drain E cs st)\<lparr>stdin := x\<rparr>"
  unfolding drain_foldl
  by (induction cs arbitrary: st) (auto simp: completion_stdin)

lemma drain_files:
  "\<forall>u\<in>set cs. filepath E u \<noteq> Some q \<Longrightarrow> files (world (drain E cs st)) q = files (world st) q"
  unfolding drain_foldl
  by (induction cs arbitrary: st) (auto simp: completion_files)

lemma drain_lists:
  "\<exists>ps fs es.
     successful_downloads (drain E cs st) = successful_downloads st @ ps \<and>
     failed_downloads (drain E cs st) = failed_downloads st @ fs \<and>
     trace (world (drain E cs st)) = trace (world st) @ es \<and>
     verified_paths es = ps \<and> submitted es = [] \<and> pool_events es = [] \<and>
     set fs \<subseteq> url ` set cs - processed_urls st"
proof (induction cs arbitrary: st)
  case Nil
  show ?case
    by (rule exI[of _ "[]"], rule exI[of _ "[]"], rule exI[of _ "[]"])
       (simp add: verified_paths_def submitted_def pool_events_def)
next
  case (Cons c cs)
  let ?st1 = "completion E c st"
  from completion_lists[of E c st] obtain ps1 fs1 es1 where
    a: "successful_downloads ?st1 = successful_downloads st @ ps1"
       "failed_downloads ?st1 = failed_downloads st @ fs1"
       "trace (world ?st1) = trace (world st) @ es1"
       "verified_paths es1 = ps1" "submitted es1 = []" "pool_events es1 = []"
       "set fs1 \<subseteq> {url c}" "url c \<in> processed_urls st \<longrightarrow> fs1 = []"
    by blast
  from Cons[of ?st1] obtain ps2 fs2 es2 where
    b: "successful_downloads (drain E cs ?st1) = successful_downloads ?st1 @ ps2"
       "failed_downloads (drain E cs ?st1) = failed_downloads ?st1 @ fs2"
       "trace (world (drain E cs ?st1)) = trace (world ?st1) @ es2"
       "verified_paths es2 = ps2" "submitted es2 = []" "pool_events es2 = []"
       "set fs2 \<subseteq> url ` set cs - processed_urls ?st1"
    by blast
  have d: "drain E (c # cs) st = drain E cs ?st1"
    by (simp add: drain_foldl)
  have p: "processed_urls ?st1 = insert (url c) (processed_urls st)"
    by (simp add: completion_frame)
  show ?case
    apply (rule exI[of _ "ps1 @ ps2"], rule exI[of _ "fs1 @ fs2"], rule exI[of _ "es1 @ es2"])
    unfolding d using a b p by auto
qed

lemma set_as_completed [simp]: "set (as_completed E b) = set b"
  by (simp add: as_completed_def)

lemma distinct_as_completed [simp]: "distinct (as_completed E b) = distinct b"
  by (simp add: as_completed_def)

lemma process_batch_stdin:
  "process_batch E b (st\<lparr>stdin := x\<rparr>) = (process_batch E b st)\<lparr>stdin := x\<rparr>"
proof -
  have e: "(st\<lparr>stdin := x\<rparr>)\<lparr>successful_downloads := [], failed_downloads := [],
              world := log_events [Submit b] (world (st\<lparr>stdin := x\<rparr>))\<rparr> =
        (st\<lparr>successful_downloads := [], failed_downloads := [],
            world := log_events [Submit b] (world st)\<rparr>)\<lparr>stdin := x\<rparr>"
    by simp
  show ?thesis
    unfolding process_batch_def Let_def e drain_stdin by simp
qed

lemma process_batch_frame:
  "stdin (process_batch E b st) = stdin st \<and>
   processed_urls (process_batch E b st) = processed_urls st \<union> url ` set b"
  by (simp add: process_batch_def Let_def drain_frame)

lemma process_batch_files:
  "\<forall>u\<in>set b. filepath E u \<noteq> Some q \<Longrightarrow>
   files (world (process_batch E b st)) q = files (world st) q"
  by (simp add: process_batch_def Let_def drain_files log_events_def)

lemma process_batch_lists:
  "\<exists>ps fs es.
     all_successful_downloads (process_batch E b st) = all_successful_downloads st @ ps \<and>
     all_failed_downloads (process_batch E b st) = all_failed_downloads st @ fs \<and>
     trace (world (process_batch E b st)) = trace (world st) @ [Submit b] @ es @ [Shutdown True] \<and>
     verified_paths es = ps \<and> submitted es = [] \<and> pool_events es = [] \<and>
     set fs \<subseteq> url ` set b - processed_urls st"
proof -
  let ?st1 = "st\<lparr>successful_downloads := [], failed_downloads := [],
                 world := log_events [Submit b] (world st)\<rparr>"
  from drain_lists[of E "as_completed E b" ?st1] obtain ps fs es where
    a: "successful_downloads (drain E (as_completed E b) ?st1) = successful_downloads ?st1 @ ps"
       "failed_downloads (drain E (as_completed E b) ?st1) = failed_downloads ?st1 @ fs"
       "trace (world (drain E (as_completed E b) ?st1)) = trace (world ?st1) @ es"
       "verified_paths es = ps" "submitted es = []" "pool_events es = []"
       "set fs \<subseteq> url ` set (as_completed E b) - processed_urls ?st1"
    by blast
  show ?thesis
    apply (rule exI[of _ ps], rule exI[of _ fs], rule exI[of _ es])
    using a by (simp add: process_batch_def Let_def drain_frame log_events_def)
qed

text \<open>Contiguous slices of a list.\<close>

lemma slices_Nil [simp]: "slices n [] = []"
  by (subst slices.simps) simp

lemma slices_step: "0 < n \<Longrightarrow> xs \<noteq> [] \<Longrightarrow> slices n xs = take n xs # slices n (drop n xs)"
  by (subst slices.simps) simp

lemma concat_slices: "0 < n \<Longrightarrow> concat (slices n xs) = xs"
proof (induction n xs rule: slices.induct)
  case (1 n xs)
  show ?case
  proof (cases "xs = []")
    case True
    then show ?thesis by simp
  next
    case False
    with 1 have ih: "concat (slices n (drop n xs)) = drop n xs" by simp
    show ?thesis
      unfolding slices_step[OF "1.prems" False] using ih by simp
  qed
qed

lemma slices_lengths:
  "0 < n \<Longrightarrow> b \<in> set (slices n xs) \<Longrightarrow> 0 < length b \<and> length b \<le> n"
proof (induction n xs rule: slices.induct)
  case (1 n xs)
  show ?case
  proof (cases "xs = []")
    case True
    with "1.prems" show ?thesis by simp
  next
    case False
    from "1.prems"(2) have "b = take n xs \<or> b \<in> set (slices n (drop n xs))"
      unfolding slices_step[OF "1.prems"(1) False] by simp
    then show ?thesis
    proof
      assume "b = take n xs"
      with False "1.prems"(1) show ?thesis by (cases xs) auto
    next
      assume "b \<in> set (slices n (drop n xs))"
      with "1.IH" False "1.prems"(1) show ?thesis by simp
    qed
  qed
qed

lemma slices_full:
  "0 < n \<Longrightarrow> b \<in> set (butlast (slices n xs)) \<Longrightarrow> length b = n"
proof (induction n xs rule: slices.induct)
  case (1 n xs)
  show ?case
  proof (cases "xs = []")
    case True
    with "1.prems" show ?thesis by simp
  next
    case False
    note st = slices_step[OF "1.prems"(1) False]
    show ?thesis
    proof (cases "drop n xs = []")
      case True
      with "1.prems"(2) show ?thesis unfolding st by simp
    next
      case d: False
      then have l: "n < length xs" by simp
      have ne: "slices n (drop n xs) \<noteq> []"
        unfolding slices_step[OF "1.prems"(1) d] by simp
      from "1.prems"(2) ne have "b = take n xs \<or> b \<in> set (butlast (slices n (drop n xs)))"
        unfolding st by simp
      then show ?thesis
      proof
        assume "b = take n xs"
        with l show ?thesis by simp
      next
        assume "b \<in> set (butlast (slices n (drop n xs)))"
        with "1.IH" False "1.prems"(1) show ?thesis by simp
      qed
    qed
  qed
qed

lemma length_slices: "0 < n \<Longrightarrow> length xs \<le> n * k \<Longrightarrow> length (slices n xs) \<le> k"
proof (induction n xs arbitrary: k rule: slices.induct)
  case (1 n xs)
  show ?case
  proof (cases "xs = []")
    case True
    then show ?thesis by simp
  next
    case False
    with "1.prems" obtain k' where k: "k = Suc k'" by (cases k) auto
    with "1.prems" have "length (drop n xs) \<le> n * k'" by simp
    with "1.IH"[of k'] False "1.prems"(1) have "length (slices n (drop n xs)) \<le> k'"
      by simp
    with k show ?thesis
      unfolding slices_step[OF "1.prems"(1) False] by simp
  qed
qed

lemma process_all_stdin:
  "process_all E bss (st\<lparr>stdin := x\<rparr>) = (process_all E bss st)\<lparr>stdin := x\<rparr>"
  unfolding process_all_def
  by (induction bss arbitrary: st) (simp_all add: process_batch_stdin)

lemma process_all_Cons: "process_all E (b # bss) st = process_all E bss (process_batch E b st)"
  by (simp add: process_all_def)

lemma batches_all_yes:
  assumes "0 < n"
    and "all_yes (stdin st)"
    and "length videos \<le> i + n * (length (stdin st) + (if i = 0 then 1 else 0))"
  shows "\<exists>k. batches E videos n i st =
           Inr ((process_all E (slices n (drop i videos)) st)\<lparr>stdin := drop k (stdin st)\<rparr>)"
  using assms
proof (induction E videos n i st rule: batches.induct)
  case (1 E videos n i st)
  show ?case
  proof (cases "length videos \<le> i")
    case True
    then have "batches E videos n i st = Inr st"
      by (subst batches.simps) simp
    moreover from True have "process_all E (slices n (drop i videos)) st = st"
      by (simp add: process_all_def)
    ultimately show ?thesis
      by (intro exI[of _ 0]) simp
  next
    case False
    let ?b = "take n (drop i videos)"
    let ?st0 = "if 0 < i then st\<lparr>stdin := tl (stdin st)\<rparr> else st"
    let ?st1 = "process_batch E ?b ?st0"
    from False "1.prems" have ne: "0 < i \<longrightarrow> stdin st \<noteq> []"
      by (cases "stdin st") (auto split: if_splits)
    from "1.prems"(2) ne have y: "0 < i \<longrightarrow> lower (hd (stdin st)) = ''y''"
      by (cases "stdin st") (auto simp: all_yes_def)
    from False "1.prems"(1) ne y
    have step: "batches E videos n i st = batches E videos n (i + n) ?st1"
      by (subst batches.simps) auto
    have s1: "stdin ?st1 = (if 0 < i then tl (stdin st) else stdin st)"
      by (simp add: process_batch_frame)
    from "1.prems"(2) have y1: "all_yes (stdin ?st1)"
      unfolding s1 by (cases "stdin st") (auto simp: all_yes_def)
    from "1.prems"(1,3) False ne
    have en: "length videos \<le> (i + n) + n * (length (stdin ?st1) + (if i + n = 0 then 1 else 0))"
      unfolding s1 by (cases "stdin st") (auto simp: algebra_simps)
    from False "1.prems"(1) have c: "\<not> (n = 0 \<or> length videos \<le> i)" by simp
    have nn: "\<not> (0 < i \<and> stdin st = [])" using ne by blast
    have yy: "\<not> (0 < i \<and> lower (hd (stdin st)) \<noteq> ''y'')" using y by blast
    from "1.IH"[OF c nn yy "1.prems"(1) y1 en] obtain k where
      k: "batches E videos n (i + n) ?st1 =
            Inr ((process_all E (slices n (drop (i + n) videos)) ?st1)\<lparr>stdin := drop k (stdin ?st1)\<rparr>)"
      by blast
    from False have dne: "drop i videos \<noteq> []" by simp
    have dd: "drop n (drop i videos) = drop (i + n) videos"
      by (simp add: add.commute)
    have sl: "slices n (drop i videos) = ?b # slices n (drop (i + n) videos)"
      using slices_step[OF "1.prems"(1) dne] unfolding dd .
    define rest where "rest = slices n (drop (i + n) videos)"
    define X where "X = process_all E rest (process_batch E ?b st)"
    have all: "process_all E (slices n (drop i videos)) st = X"
      by (simp only: sl process_all_Cons X_def rest_def)
    have k': "batches E videos n i st =
                Inr ((process_all E rest ?st1)\<lparr>stdin := drop k (stdin ?st1)\<rparr>)"
      by (simp only: step k rest_def)
    show ?thesis
    proof (cases "0 < i")
      case True
      then have e1: "?st1 = (process_batch E ?b st)\<lparr>stdin := tl (stdin st)\<rparr>"
        by (simp add: process_batch_stdin)
      have e2: "process_all E rest ?st1 = X\<lparr>stdin := tl (stdin st)\<rparr>"
        by (simp only: e1 process_all_stdin X_def)
      have e3: "stdin ?st1 = tl (stdin st)"
        using True s1 by simp
      have "batches E videos n i st = Inr (X\<lparr>stdin := drop (Suc k) (stdin st)\<rparr>)"
        unfolding k' e2 e3 by (simp add: drop_Suc)
      then show ?thesis
        unfolding all by blast
    next
      case False
      then have e1: "?st1 = process_batch E ?b st"
        by simp
      have e3: "stdin ?st1 = stdin st"
        using False s1 by simp
      have "batches E videos n i st = Inr (X\<lparr>stdin := drop k (stdin st)\<rparr>)"
        unfolding k' e3 unfolding e1 X_def by simp
      then show ?thesis
        unfolding all by blast
    qed
  qed
qed

lemma process_all_frame:
  "stdin (process_all E bss st) = stdin st \<and>
   processed_urls (process_all E bss st) = processed_urls st \<union> url ` set (concat bss)"
  unfolding process_all_def
  by (induction bss arbitrary: st) (auto simp: process_batch_frame)

lemma process_all_files:
  "\<forall>u\<in>set (concat bss). filepath E u \<noteq> Some q \<Longrightarrow>
   files (world (process_all E bss st)) q = files (world st) q"
  unfolding process_all_def
  by (induction bss arbitrary: st) (auto simp: process_batch_files)

lemma process_all_lists:
  "\<exists>ps fs es.
     all_successful_downloads (process_all E bss st) = all_successful_downloads st @ ps \<and>
     all_failed_downloads (process_all E bss st) = all_failed_downloads st @ fs \<and>
     trace (world (process_all E bss st)) = trace (world st) @ es \<and>
     verified_paths es = ps \<and> submitted es = bss \<and>
     pool_events es = concat (map (\<lambda>b. [Submit b, Shutdown True]) bss) \<and>
     set fs \<subseteq> url ` set (concat bss) - processed_urls st"
proof (induction bss arbitrary: st)
  case Nil
  show ?case
    by (rule exI[of _ "[]"], rule exI[of _ "[]"], rule exI[of _ "[]"])
       (simp add: process_all_def verified_paths_def submitted_def pool_events_def)
next
  case (Cons b bss)
  let ?st1 = "process_batch E b st"
  from process_batch_lists[of E b st] obtain ps1 fs1 es1 where
    a: "all_successful_downloads ?st1 = all_successful_downloads st @ ps1"
       "all_failed_downloads ?st1 = all_failed_downloads st @ fs1"
       "trace (world ?st1) = trace (world st) @ [Submit b] @ es1 @ [Shutdown True]"
       "verified_paths es1 = ps1" "submitted es1 = []" "pool_events es1 = []"
       "set fs1 \<subseteq> url ` set b - processed_urls st"
    by blast
  from Cons[of ?st1] obtain ps2 fs2 es2 where
    b: "all_successful_downloads (process_all E bss ?st1) = all_successful_downloads ?st1 @ ps2"
       "all_failed_downloads (process_all E bss ?st1) = all_failed_downloads ?st1 @ fs2"
       "trace (world (process_all E bss ?st1)) = trace (world ?st1) @ es2"
       "verified_paths es2 = ps2" "submitted es2 = bss"
       "pool_events es2 = concat (map (\<lambda>b. [Submit b, Shutdown True]) bss)"
       "set fs2 \<subseteq> url ` set (concat bss) - processed_urls ?st1"
    by blast
  have p: "processed_urls ?st1 = processed_urls st \<union> url ` set b"
    by (simp add: process_batch_frame)
  have v: "verified_paths ([Submit b] @ es1 @ [Shutdown True] @ es2) = ps1 @ ps2"
    using a(4) b(4) by (simp add: verified_paths_def)
  have s: "submitted ([Submit b] @ es1 @ [Shutdown True] @ es2) = b # bss"
    using a(5) b(5) by (simp add: submitted_def)
  have q: "pool_events ([Submit b] @ es1 @ [Shutdown True] @ es2) =
             concat (map (\<lambda>b. [Submit b, Shutdown True]) (b # bss))"
    using a(6) b(6) by (simp add: pool_events_def)
  have f: "set (fs1 @ fs2) \<subseteq> url ` set (concat (b # bss)) - processed_urls st"
  proof -
    define A where "A = url ` set b"
    define B where "B = url ` set (concat bss)"
    define P where "P = processed_urls st"
    have u: "url ` set (concat (b # bss)) = A \<union> B"
      unfolding A_def B_def by (simp add: image_Un)
    have 1: "set fs1 \<subseteq> A - P"
      using a(7) unfolding A_def P_def .
    have 2: "set fs2 \<subseteq> B - (P \<union> A)"
      using b(7) unfolding p A_def B_def P_def .
    from 1 2 have "set fs1 \<union> set fs2 \<subseteq> (A \<union> B) - P"
      by blast
    then show ?thesis
      unfolding u P_def by simp
  qed
  show ?case
    apply (rule exI[of _ "ps1 @ ps2"], rule exI[of _ "fs1 @ fs2"])
    apply (rule exI[of _ "[Submit b] @ es1 @ [Shutdown True] @ es2"])
    unfolding process_all_Cons using a(1-3) b(1-3) v s q f by simp
qed

text \<open>A task whose fetch never succeeds.\<close>

lemma drain_target:
  assumes "filepath E v = Some fp" and "\<forall>n. \<not> is_body (http E (url v) n)"
  shows "\<forall>u\<in>set cs. u \<noteq> v \<longrightarrow> url u \<noteq> url v \<and> filepath E u \<noteq> Some fp \<Longrightarrow>
         distinct cs \<Longrightarrow> v \<in> set cs \<Longrightarrow> url v \<notin> processed_urls st \<Longrightarrow>
         files (world st) fp = None \<Longrightarrow>
         count_list (failed_downloads (drain E cs st)) (url v) =
           count_list (failed_downloads st) (url v) + 1"
proof (induction cs arbitrary: st)
  case Nil
  then show ?case by simp
next
  case (Cons c cs)
  let ?st1 = "completion E c st"
  have d: "drain E (c # cs) st = drain E cs ?st1"
    by (simp add: drain_foldl)
  have p: "processed_urls ?st1 = insert (url c) (processed_urls st)"
    by (simp add: completion_frame)
  show ?case
  proof (cases "c = v")
    case True
    from download_video_never_body[OF assms(2) assms(1) Cons.prems(5)]
    have "fst (download_video E (world st) v) = None" .
    with Cons.prems(4) have f1: "failed_downloads ?st1 = failed_downloads st @ [url v]"
      unfolding True by (rule completion_failure)
    from drain_lists[of E cs ?st1] obtain fs where
      fs: "failed_downloads (drain E cs ?st1) = failed_downloads ?st1 @ fs"
          "set fs \<subseteq> url ` set cs - processed_urls ?st1"
      by blast
    from fs(2) p True have "url v \<notin> set fs" by auto
    then have "count_list fs (url v) = 0" by (simp add: count_list_0_iff)
    with fs(1) f1 show ?thesis unfolding d by simp
  next
    case False
    with Cons.prems(1) have o: "url c \<noteq> url v" "filepath E c \<noteq> Some fp" by auto
    from completion_lists[of E c st] obtain fs1 where
      f1: "failed_downloads ?st1 = failed_downloads st @ fs1" "set fs1 \<subseteq> {url c}"
      by blast
    from f1(2) o(1) have "url v \<notin> set fs1" by auto
    then have c0: "count_list fs1 (url v) = 0" by (simp add: count_list_0_iff)
    have fl: "files (world ?st1) fp = None"
      using completion_files[OF o(2), of st] Cons.prems(5) by simp
    have np: "url v \<notin> processed_urls ?st1"
      using p o(1) Cons.prems(4) by auto
    from Cons.prems False have pre: "\<forall>u\<in>set cs. u \<noteq> v \<longrightarrow> url u \<noteq> url v \<and> filepath E u \<noteq> Some fp"
      "distinct cs" "v \<in> set cs" by auto
    from Cons.IH[OF pre np fl] f1(1) c0 show ?thesis unfolding d by simp
  qed
qed

lemma process_batch_target:
  assumes "filepath E v = Some fp" and "\<forall>n. \<not> is_body (http E (url v) n)"
    and "\<forall>u\<in>set b. u \<noteq> v \<longrightarrow> url u \<noteq> url v \<and> filepath E u \<noteq> Some fp"
    and "distinct b" and "v \<in> set b" and "url v \<notin> processed_urls st"
    and "files (world st) fp = None"
  shows "count_list (all_failed_downloads (process_batch E b st)) (url v) =
           count_list (all_failed_downloads st) (url v) + 1"
proof -
  let ?st1 = "st\<lparr>successful_downloads := [], failed_downloads := [],
                 world := log_events [Submit b] (world st)\<rparr>"
  have "count_list (failed_downloads (drain E (as_completed E b) ?st1)) (url v) =
          count_list (failed_downloads ?st1) (url v) + 1"
    by (rule drain_target[OF assms(1,2)]) (use assms(3-7) in \<open>simp_all add: log_events_def\<close>)
  then show ?thesis
    by (simp add: process_batch_def Let_def drain_frame)
qed

lemma process_all_target:
  assumes "filepath E v = Some fp" and "\<forall>n. \<not> is_body (http E (url v) n)"
  shows "\<forall>u\<in>set (concat bss). u \<noteq> v \<longrightarrow> url u \<noteq> url v \<and> filepath E u \<noteq> Some fp \<Longrightarrow>
         distinct (concat bss) \<Longrightarrow> v \<in> set (concat bss) \<Longrightarrow> url v \<notin> processed_urls st \<Longrightarrow>
         files (world st) fp = None \<Longrightarrow>
         count_list (all_failed_downloads (process_all E bss st)) (url v) =
           count_list (all_failed_downloads st) (url v) + 1"
proof (induction bss arbitrary: st)
  case Nil
  then show ?case by simp
next
  case (Cons b bss)
  let ?st1 = "process_batch E b st"
  have p: "processed_urls ?st1 = processed_urls st \<union> url ` set b"
    by (simp add: process_batch_frame)
  from Cons.prems(2) have db: "distinct b" and dr: "distinct (concat bss)"
    and dj: "set b \<inter> set (concat bss) = {}" by auto
  show ?case
  proof (cases "v \<in> set b")
    case True
    from Cons.prems(1) have ob: "\<forall>u\<in>set b. u \<noteq> v \<longrightarrow> url u \<noteq> url v \<and> filepath E u \<noteq> Some fp"
      by auto
    from process_batch_target[OF assms ob db True Cons.prems(4,5)]
    have c1: "count_list (all_failed_downloads ?st1) (url v) =
                count_list (all_failed_downloads st) (url v) + 1" .
    from process_all_lists[of E bss ?st1] obtain fs where
      fs: "all_failed_downloads (process_all E bss ?st1) = all_failed_downloads ?st1 @ fs"
          "set fs \<subseteq> url ` set (concat bss) - processed_urls ?st1"
      by blast
    from fs(2) p True have "url v \<notin> set fs" by auto
    then have "count_list fs (url v) = 0" by (simp add: count_list_0_iff)
    with fs(1) c1 show ?thesis unfolding process_all_Cons by simp
  next
    case False
    with Cons.prems(3) have vr: "v \<in> set (concat bss)" by auto
    from False Cons.prems(1) have ob: "\<forall>u\<in>set b. url u \<noteq> url v \<and> filepath E u \<noteq> Some fp"
      by auto
    from process_batch_lists[of E b st] obtain fs1 where
      f1: "all_failed_downloads ?st1 = all_failed_downloads st @ fs1"
          "set fs1 \<subseteq> url ` set b - processed_urls st"
      by blast
    from ob have "url v \<notin> url ` set b" by (auto simp: image_iff)
    with f1(2) have "url v \<notin> set fs1" by (meson DiffD1 subsetD)
    then have c0: "count_list fs1 (url v) = 0" by (simp add: count_list_0_iff)
    from ob have "\<forall>u\<in>set b. filepath E u \<noteq> Some fp" by simp
    from process_batch_files[OF this, of st] Cons.prems(5)
    have fl: "files (world ?st1) fp = None" by simp
    have np: "url v \<notin> processed_urls ?st1"
      using p ob Cons.prems(4) by auto
    from Cons.prems(1) have pr: "\<forall>u\<in>set (concat bss). u \<noteq> v \<longrightarrow> url u \<noteq> url v \<and> filepath E u \<noteq> Some fp"
      by auto
    from Cons.IH[OF pr dr vr np fl] f1(1) c0 show ?thesis
      unfolding process_all_Cons by simp
  qed
qed

lemma cli_run:
  assumes "0 < batch_size" and "all_yes inp"
    and "int (length videos) \<le> batch_size * (int (length inp) + 1)"
  shows "\<exists>k. parallel_download_videos E videos batch_size inp w =
           Inr (all_successful_downloads
                  (process_all E (slices (nat batch_size) videos) (init_state inp w)),
                (process_all E (slices (nat batch_size) videos) (init_state inp w))
                  \<lparr>stdin := drop k inp\<rparr>)"
proof -
  let ?st = "init_state inp w"
  have s: "stdin ?st = inp" by (simp add: init_state_def)
  from assms(1) have n: "0 < nat batch_size" by simp
  from assms(1,3) have "int (length videos) \<le> int (nat batch_size * (length inp + 1))"
    by (simp add: algebra_simps)
  then have "length videos \<le> nat batch_size * (length inp + 1)"
    by (simp only: of_nat_le_iff)
  then have en: "length videos \<le> 0 + nat batch_size * (length (stdin ?st) + (if (0::nat) = 0 then 1 else 0))"
    by (simp add: s)
  from assms(2) have y: "all_yes (stdin ?st)" by (simp add: s)
  from batches_all_yes[OF n y en, of E] obtain k where
    k: "batches E videos (nat batch_size) 0 ?st =
          Inr ((process_all E (slices (nat batch_size) (drop 0 videos)) ?st)\<lparr>stdin := drop k (stdin ?st)\<rparr>)"
    by blast
  show ?thesis
    apply (rule exI[of _ k])
    using assms(1) k by (simp add: parallel_download_videos_def s)
qed

text \<open>
  Claim C4. Let a task have a destination path. Whenever the worker runs for the task
  with no file at that path, it makes one, two or three requests for the URL, with a
  pause of 2 between consecutive ones: no request before the last one made was answered
  with a body, the call returns the path if the last one was, and it returns \<^verbatim>\<open>None\<close> only
  after the third request has failed. In a run of the command-line scheduler over a list
  with pairwise distinct URLs that holds the task, with a positive batch size and every
  question answered with yes, where the task's path holds no file and is the path of no
  other task, the scheduler returns normally and every task of the list has been
  processed; if no request for the task's URL is ever answered with a body, the URL
  occurs exactly once in the list of failures.
\<close>

theorem three_attempts_then_failure_recorded_once:
  assumes "filepath E v = Some fp"
  shows "(\<forall>w1 r1 w2. files w1 fp = None \<longrightarrow> download_video E w1 v = (r1, w2) \<longrightarrow>
            (\<exists>k\<in>{1, 2, 3}. trace w2 = trace w1 @ fetch_trace (url v) k \<and>
               (\<forall>j<k - 1. \<not> is_body (http E (url v) (length (trace w1) + 2 * j))) \<and>
               (if is_body (http E (url v) (length (trace w1) + 2 * (k - 1)))
                then r1 = Some fp else r1 = None \<and> k = 3))) \<and>
         (0 < batch_size \<and> all_yes inp \<and>
          int (length videos) \<le> batch_size * (int (length inp) + 1) \<and>
          distinct (map url videos) \<and> v \<in> set videos \<and> files w fp = None \<and>
          (\<forall>u\<in>set videos. u \<noteq> v \<longrightarrow> filepath E u \<noteq> Some fp) \<longrightarrow>
          (\<exists>r st. parallel_download_videos E videos batch_size inp w = Inr (r, st) \<and>
             processed_urls st = url ` set videos \<and>
             ((\<forall>n. \<not> is_body (http E (url v) n)) \<longrightarrow>
                count_list (all_failed_downloads st) (url v) = 1)))"
proof -
  have a: "\<exists>k\<in>{1, 2, 3}. trace w2 = trace w1 @ fetch_trace (url v) k \<and>
               (\<forall>j<k - 1. \<not> is_body (http E (url v) (length (trace w1) + 2 * j))) \<and>
               (if is_body (http E (url v) (length (trace w1) + 2 * (k - 1)))
                then r1 = Some fp else r1 = None \<and> k = 3)"
    if "files w1 fp = None" "download_video E w1 v = (r1, w2)" for w1 r1 w2
  proof -
    from that assms have "attempts E (url v) fp 0 w1 = (r1, w2)"
      by (simp add: download_video_def)
    then show ?thesis by (rule attempts_until_success)
  qed
  have c: "\<exists>r st. parallel_download_videos E videos batch_size inp w = Inr (r, st) \<and>
             processed_urls st = url ` set videos \<and>
             ((\<forall>n. \<not> is_body (http E (url v) n)) \<longrightarrow>
                count_list (all_failed_downloads st) (url v) = 1)"
    if h: "0 < batch_size" "all_yes inp"
      "int (length videos) \<le> batch_size * (int (length inp) + 1)"
      "distinct (map url videos)" "v \<in> set videos" "files w fp = None"
      "\<forall>u\<in>set videos. u \<noteq> v \<longrightarrow> filepath E u \<noteq> Some fp"
  proof -
    let ?bss = "slices (nat batch_size) videos"
    let ?ini = "init_state inp w"
    from h(1) have n: "0 < nat batch_size" by simp
    have cc: "concat ?bss = videos" by (rule concat_slices[OF n])
    from h(4) have dv: "distinct videos" by (rule distinct_map[THEN iffD1, THEN conjunct1])
    from h(4) have inj: "inj_on url (set videos)" by (simp add: distinct_map)
    have o: "\<forall>u\<in>set (concat ?bss). u \<noteq> v \<longrightarrow> url u \<noteq> url v \<and> filepath E u \<noteq> Some fp"
      unfolding cc using h(5,7) inj by (auto dest: inj_onD)
    have t: "count_list (all_failed_downloads (process_all E ?bss ?ini)) (url v) = 1"
      if nb: "\<forall>n. \<not> is_body (http E (url v) n)"
    proof -
      have "count_list (all_failed_downloads (process_all E ?bss ?ini)) (url v) =
              count_list (all_failed_downloads ?ini) (url v) + 1"
        by (rule process_all_target[OF assms nb o])
           (use cc dv h(5,6) in \<open>simp_all add: init_state_def\<close>)
      then show ?thesis by (simp add: init_state_def)
    qed
    have p: "processed_urls (process_all E ?bss ?ini) = url ` set videos"
      using process_all_frame[of E ?bss ?ini] cc by (simp add: init_state_def)
    from cli_run[OF h(1-3), of E w] obtain k where
      k: "parallel_download_videos E videos batch_size inp w =
            Inr (all_successful_downloads (process_all E ?bss ?ini),
                 (process_all E ?bss ?ini)\<lparr>stdin := drop k inp\<rparr>)"
      by blast
    show ?thesis
      unfolding k using t p by simp
  qed
  from a c show ?thesis by blast
qed

lemma filepath_distinct_hash:
  "filepath distinct_hash_env (example_video ''A'') =
     Some ''downloads/personal_unknown_date_posted_A0000000.mp4'' \<and>
   filepath distinct_hash_env (example_video ''B'') =
     Some ''downloads/personal_unknown_date_posted_B0000000.mp4'' \<and>
   filepath distinct_hash_env (example_video ''C'') =
     Some ''downloads/personal_unknown_date_posted_C0000000.mp4''"
  by (simp add: filepath_def filename_def date_str_def extension_def is_image_def
      image_extensions_def lower_def lower_char_def path_join_def example_env_def
      example_video_def distinct_hash_env_def)

lemma filepath_second_try:
  "filepath second_try_env (example_video ''A'') =
     Some ''downloads/personal_unknown_date_posted_01234567.mp4''"
  unfolding second_try_env_def by (rule filepath_example_A)

theorem three_attempts_then_failure_recorded_once_witness:
  "all_yes [''y''] \<and>
   distinct (map url [example_video ''A'', example_video ''B'', example_video ''C'']) \<and>
   filepath distinct_hash_env (example_video ''B'') =
     Some ''downloads/personal_unknown_date_posted_B0000000.mp4'' \<and>
   http distinct_hash_env ''B'' 0 = RequestFailed \<and>
   (\<exists>r st. parallel_download_videos distinct_hash_env
              [example_video ''A'', example_video ''B'', example_video ''C''] 2 [''y'']
              empty_world = Inr (r, st) \<and>
            count_list (all_failed_downloads st) ''B'' = 1 \<and>
            processed_urls st = {''A'', ''B'', ''C''}) \<and>
   fst (download_video distinct_hash_env empty_world (example_video ''B'')) = None \<and>
   trace (snd (download_video distinct_hash_env empty_world (example_video ''B''))) =
     [Request ''B'', Sleep 2, Request ''B'', Sleep 2, Request ''B''] \<and>
   http second_try_env ''A'' 0 = RequestFailed \<and>
   http second_try_env ''A'' 2 = Body [''xy''] \<and>
   fst (download_video second_try_env empty_world (example_video ''A'')) =
     Some ''downloads/personal_unknown_date_posted_01234567.mp4'' \<and>
   trace (snd (download_video second_try_env empty_world (example_video ''A''))) =
     [Request ''A'', Sleep 2, Request ''A'']"
proof -
  let ?vs = "[example_video ''A'', example_video ''B'', example_video ''C'']"
  let ?p = "''downloads/personal_unknown_date_posted_B0000000.mp4''"
  let ?q = "''downloads/personal_unknown_date_posted_01234567.mp4''"
  have h1: "(0::int) < 2" by simp
  have h2: "all_yes [''y'']" by (simp add: all_yes_def lower_def lower_char_def)
  have h3: "int (length ?vs) \<le> 2 * (int (length [''y'']) + 1)" by simp
  have h4: "distinct (map url ?vs)" by (simp add: example_video_def)
  have h5: "example_video ''B'' \<in> set ?vs" by simp
  have h6: "filepath distinct_hash_env (example_video ''B'') = Some ?p"
    by (simp add: filepath_distinct_hash)
  have h7: "files empty_world ?p = None" by (simp add: empty_world_def)
  have h8: "\<forall>u\<in>set ?vs. u \<noteq> example_video ''B'' \<longrightarrow> filepath distinct_hash_env u \<noteq> Some ?p"
    by (simp add: filepath_distinct_hash)
  have h9: "\<forall>n. \<not> is_body (http distinct_hash_env (url (example_video ''B'')) n)"
    by (simp add: distinct_hash_env_def example_env_def example_video_def)
  have u: "url (example_video ''B'') = ''B''" "url ` set ?vs = {''A'', ''B'', ''C''}"
    "url (example_video ''A'') = ''A''"
    by (simp_all add: example_video_def)
  have t0: "trace empty_world = []" by (simp add: empty_world_def)
  have r: "http distinct_hash_env ''B'' 0 = RequestFailed"
    by (simp add: distinct_hash_env_def example_env_def)
  note th = three_attempts_then_failure_recorded_once[OF h6, of 2 "[''y'']" ?vs empty_world]
  from th[THEN conjunct2] h1 h2 h3 h4 h5 h7 h8 h9
  have run: "\<exists>r st. parallel_download_videos distinct_hash_env ?vs 2 [''y''] empty_world = Inr (r, st) \<and>
            count_list (all_failed_downloads st) ''B'' = 1 \<and>
            processed_urls st = {''A'', ''B'', ''C''}"
    unfolding u by blast
  obtain rb wb where b: "download_video distinct_hash_env empty_world (example_video ''B'') = (rb, wb)"
    by (cases "download_video distinct_hash_env empty_world (example_video ''B'')")
  from th[THEN conjunct1, rule_format, OF h7 b] obtain k where
    k: "k \<in> {1, 2, 3}" "trace wb = trace empty_world @ fetch_trace (url (example_video ''B'')) k"
       "if is_body (http distinct_hash_env (url (example_video ''B''))
                      (length (trace empty_world) + 2 * (k - 1)))
        then rb = Some ?p else rb = None \<and> k = 3"
    by blast
  from k(3) h9 have kb: "rb = None" "k = 3" by simp_all
  have fb: "fst (download_video distinct_hash_env empty_world (example_video ''B'')) = None"
    unfolding b using kb by simp
  have tb: "trace (snd (download_video distinct_hash_env empty_world (example_video ''B''))) =
              [Request ''B'', Sleep 2, Request ''B'', Sleep 2, Request ''B'']"
    unfolding b using k(2) kb u t0 by (simp add: eval_nat_numeral)
  have g6: "filepath second_try_env (example_video ''A'') = Some ?q"
    by (rule filepath_second_try)
  have g7: "files empty_world ?q = None" by (simp add: empty_world_def)
  have s: "http second_try_env ''A'' 0 = RequestFailed" "http second_try_env ''A'' 2 = Body [''xy'']"
    by (simp_all add: second_try_env_def example_env_def)
  have sb: "is_body (http second_try_env ''A'' n) \<longleftrightarrow> n \<noteq> 0" for n
    by (simp add: second_try_env_def example_env_def)
  obtain ra wa where a: "download_video second_try_env empty_world (example_video ''A'') = (ra, wa)"
    by (cases "download_video second_try_env empty_world (example_video ''A'')")
  note th2 = three_attempts_then_failure_recorded_once[OF g6, of 2 "[]" "[]" empty_world]
  from th2[THEN conjunct1, rule_format, OF g7 a] obtain k2 where
    k2: "k2 \<in> {1, 2, 3}" "trace wa = trace empty_world @ fetch_trace (url (example_video ''A'')) k2"
       "\<forall>j<k2 - 1. \<not> is_body (http second_try_env (url (example_video ''A''))
                                (length (trace empty_world) + 2 * j))"
       "if is_body (http second_try_env (url (example_video ''A''))
                      (length (trace empty_world) + 2 * (k2 - 1)))
        then ra = Some ?q else ra = None \<and> k2 = 3"
    by blast
  have k22: "k2 = 2"
  proof -
    from k2(1) consider "k2 = 1" | "k2 = 2" | "k2 = 3" by auto
    then show ?thesis
    proof cases
      case 1
      with k2(4) show ?thesis by (simp add: sb u t0)
    next
      case 2
      then show ?thesis .
    next
      case 3
      with k2(3)[rule_format, of 1] show ?thesis by (simp add: sb u t0)
    qed
  qed
  from k2(4) k22 have ra: "ra = Some ?q" by (simp add: sb u t0)
  have fa: "fst (download_video second_try_env empty_world (example_video ''A'')) = Some ?q"
    unfolding a using ra by simp
  have ta: "trace (snd (download_video second_try_env empty_world (example_video ''A''))) =
              [Request ''A'', Sleep 2, Request ''A'']"
    unfolding a using k2(2) k22 u t0 by (simp add: eval_nat_numeral)
  from h2 h4 h6 r run fb tb s fa ta show ?thesis by (intro conjI)
qed

lemma fetch_event_quiet: "list_all fetch_event es \<Longrightarrow> list_all quiet es"
proof (induction es)
  case Nil
  then show ?case by simp
next
  case (Cons e es)
  then show ?case by (cases e) simp_all
qed

lemma poll_world: "poll ev w = (b, w') \<Longrightarrow> trace w' = trace w \<and> files w' = files w"
  by (auto simp: poll_def split: option.splits)

lemma gui_download_video_events:
  assumes "gui_download_video E w v = (r, w')"
  shows "\<exists>es. trace w' = trace w @ es \<and> list_all quiet es"
proof -
  obtain stop w1 where p: "poll (stop_event E) w = (stop, w1)"
    by (cases "poll (stop_event E) w")
  from poll_world[OF p] have t: "trace w1 = trace w" by simp
  show ?thesis
  proof (cases stop)
    case True
    with assms p t show ?thesis by (simp add: gui_download_video_def)
  next
    case False
    with assms p have "download_video E w1 v = (r, w')"
      by (simp add: gui_download_video_def)
    from download_video_events[OF this] t show ?thesis
      by (auto dest: fetch_event_quiet)
  qed
qed

lemma handle_result_trace:
  "\<exists>es. trace (world (handle_result v result st)) = trace (world st) @ es \<and> list_all quiet es"
  using handle_result_cases[of result v st]
  by (auto simp: log_events_def)

lemma handle_result_frame:
  "all_successful_downloads (handle_result v result st) = all_successful_downloads st \<and>
   all_failed_downloads (handle_result v result st) = all_failed_downloads st \<and>
   processed_urls (handle_result v result st) = processed_urls st \<and>
   videos_processed (handle_result v result st) = videos_processed st \<and>
   future (handle_result v result st) = future st"
  using handle_result_cases[of result v st] by auto

lemma record_completion_frame:
  "all_successful_downloads (record_completion E n v result st) = all_successful_downloads st \<and>
   all_failed_downloads (record_completion E n v result st) = all_failed_downloads st \<and>
   processed_urls (record_completion E n v result st) = insert (url v) (processed_urls st) \<and>
   future (record_completion E n v result st) = future st"
  by (simp add: record_completion_def Let_def handle_result_frame)

lemma record_completion_trace:
  "\<exists>es. trace (world (record_completion E n v result st)) = trace (world st) @ es \<and>
        list_all quiet es"
proof -
  let ?st0 = "st\<lparr>processed_urls := insert (url v) (processed_urls st),
                 videos_processed := videos_processed st + 1\<rparr>"
  from handle_result_trace[of v result ?st0] obtain es where
    es: "trace (world (handle_result v result ?st0)) = trace (world st) @ es" "list_all quiet es"
    by auto
  show ?thesis
  proof (cases "gui_callback E")
    case True
    show ?thesis
      apply (rule exI[of _ "es @ [Progress (videos_processed (handle_result v result ?st0)) n]"])
      using True es by (simp add: record_completion_def Let_def log_events_def)
  next
    case False
    show ?thesis
      apply (rule exI[of _ es])
      using False es by (simp add: record_completion_def Let_def)
  qed
qed

lemma gui_drain_Cons_cases:
  assumes "gui_download_video E (world st) v = (result, w1)"
    and "poll (stop_event E) w1 = (stop, w2)"
  shows "gui_drain E n (v # vs) st =
          (if stop
           then (Returning (all_successful_downloads st),
                 st\<lparr>future := Some (v, result),
                    world := log_events [CancelPending, Shutdown False, Cancelling] w2\<rparr>)
           else if url v \<in> processed_urls st
           then gui_drain E n vs (st\<lparr>future := Some (v, result), world := w2\<rparr>)
           else gui_drain E n vs
                  (record_completion E n v result
                     (st\<lparr>future := Some (v, result), world := w2\<rparr>)))"
  using assms by simp

lemma drained_ok_Nil: "drained_ok st [] st"
  unfolding drained_ok_def by simp

lemma drained_ok_Cons:
  assumes "drained_ok st1 vs st2"
    and "processed_urls st1 = insert (url v) (processed_urls st)"
    and "future st1 = Some (v, result)"
    and "trace (world st1) = trace (world st) @ e1" and "list_all quiet e1"
  shows "drained_ok st (v # vs) st2"
proof -
  from assms(1) have p: "processed_urls st2 = processed_urls st1 \<union> url ` set vs"
    and f0: "vs = [] \<longrightarrow> future st2 = future st1"
    and f1: "vs \<noteq> [] \<longrightarrow> (\<exists>res. future st2 = Some (last vs, res))"
    and t: "\<exists>es. trace (world st2) = trace (world st1) @ es \<and> list_all quiet es"
    unfolding drained_ok_def by blast+
  from t obtain es where es: "trace (world st2) = trace (world st1) @ es" "list_all quiet es"
    by blast
  have 1: "processed_urls st2 = processed_urls st \<union> url ` set (v # vs)"
    unfolding p assms(2) by auto
  have 2: "\<exists>res. future st2 = Some (last (v # vs), res)"
  proof (cases "vs = []")
    case True
    with f0 assms(3) show ?thesis by simp
  next
    case False
    with f1 show ?thesis by simp
  qed
  have 3: "trace (world st2) = trace (world st) @ (e1 @ es)"
    unfolding es(1) assms(4) by simp
  have 4: "list_all quiet (e1 @ es)"
    using assms(5) es(2) by simp
  from 3 4 have 5: "\<exists>es. trace (world st2) = trace (world st) @ es \<and> list_all quiet es"
    by blast
  show ?thesis
    unfolding drained_ok_def using 1 2 5 by simp
qed

lemma cancelled_ok_Cons:
  assumes "cancelled_ok st1 vs st2"
    and "processed_urls st1 = insert (url v) (processed_urls st)"
    and "trace (world st1) = trace (world st) @ e1" and "list_all quiet e1"
  shows "cancelled_ok st (v # vs) st2"
proof -
  from assms(1) obtain cs1 v' cs2 res es where
    x: "vs = cs1 @ v' # cs2" "future st2 = Some (v', res)"
       "processed_urls st2 = processed_urls st1 \<union> url ` set cs1"
       "trace (world st2) = trace (world st1) @ es @ [CancelPending, Shutdown False, Cancelling]"
       "list_all quiet es"
    unfolding cancelled_ok_def by blast
  have 1: "v # vs = (v # cs1) @ v' # cs2" using x(1) by simp
  have 2: "processed_urls st2 = processed_urls st \<union> url ` set (v # cs1)"
    unfolding x(3) assms(2) by auto
  have 3: "trace (world st2) =
             trace (world st) @ (e1 @ es) @ [CancelPending, Shutdown False, Cancelling]"
    unfolding x(4) assms(3) by simp
  have 4: "list_all quiet (e1 @ es)" using assms(4) x(5) by simp
  show ?thesis
    unfolding cancelled_ok_def
    apply (rule exI[of _ "v # cs1"], rule exI[of _ v'], rule exI[of _ cs2])
    apply (rule exI[of _ res], rule exI[of _ "e1 @ es"])
    using 1 x(2) 2 3 4 by (intro conjI)
qed

lemma cancelled_ok_here:
  assumes "future st2 = Some (v, result)"
    and "processed_urls st2 = processed_urls st"
    and "trace (world st2) = trace (world st) @ e1 @ [CancelPending, Shutdown False, Cancelling]"
    and "list_all quiet e1"
  shows "cancelled_ok st (v # vs) st2"
  unfolding cancelled_ok_def
  apply (rule exI[of _ "[]"], rule exI[of _ v], rule exI[of _ vs])
  apply (rule exI[of _ result], rule exI[of _ e1])
  using assms by simp

lemma gui_drain_spec:
  "gui_drain E n cs st = (how, st2) \<Longrightarrow>
   all_successful_downloads st2 = all_successful_downloads st \<and>
   all_failed_downloads st2 = all_failed_downloads st \<and>
   (case how of
      Drained \<Rightarrow> drained_ok st cs st2
    | Returning r \<Rightarrow> r = all_successful_downloads st \<and> cancelled_ok st cs st2)"
proof (induction cs arbitrary: st how st2)
  case Nil
  then show ?case by (auto simp: drained_ok_Nil)
next
  case (Cons v vs)
  obtain result w1 where d: "gui_download_video E (world st) v = (result, w1)"
    by (cases "gui_download_video E (world st) v")
  obtain stop w2 where p: "poll (stop_event E) w1 = (stop, w2)"
    by (cases "poll (stop_event E) w1")
  from gui_download_video_events[OF d] obtain es0 where
    es0: "trace w1 = trace (world st) @ es0" "list_all quiet es0" by blast
  from poll_world[OF p] es0 have t2: "trace w2 = trace (world st) @ es0" by simp
  note eq = Cons.prems[unfolded gui_drain_Cons_cases[OF d p]]
  show ?case
  proof (cases stop)
    case True
    with eq have h: "how = Returning (all_successful_downloads st)"
      and s: "st2 = st\<lparr>future := Some (v, result),
                        world := log_events [CancelPending, Shutdown False, Cancelling] w2\<rparr>"
      by simp_all
    have "cancelled_ok st (v # vs) st2"
      by (rule cancelled_ok_here[of _ v result _ es0])
         (simp_all add: s log_events_def t2 es0(2))
    with h s show ?thesis by simp
  next
    case False
    show ?thesis
    proof (cases "url v \<in> processed_urls st")
      case True
      let ?st1 = "st\<lparr>future := Some (v, result), world := w2\<rparr>"
      from eq False True have r: "gui_drain E n vs ?st1 = (how, st2)" by simp
      note ih = Cons.IH[OF r]
      have p1: "processed_urls ?st1 = insert (url v) (processed_urls st)"
        using True by auto
      have f1: "future ?st1 = Some (v, result)" by simp
      have t1: "trace (world ?st1) = trace (world st) @ es0" using t2 by simp
      have a: "all_successful_downloads st2 = all_successful_downloads st"
        using ih[THEN conjunct1] by simp
      have b: "all_failed_downloads st2 = all_failed_downloads st"
        using ih[THEN conjunct2, THEN conjunct1] by simp
      note c = ih[THEN conjunct2, THEN conjunct2]
      show ?thesis
      proof (cases how)
        case Drained
        with c have "drained_ok ?st1 vs st2" by simp
        from drained_ok_Cons[OF this p1 f1 t1 es0(2)] a b Drained show ?thesis by simp
      next
        case (Returning r')
        with c have r1: "r' = all_successful_downloads ?st1" and "cancelled_ok ?st1 vs st2"
          by simp_all
        from cancelled_ok_Cons[OF this(2) p1 t1 es0(2)] r1 a b Returning show ?thesis by simp
      qed
    next
      case new: False
      let ?st0 = "st\<lparr>future := Some (v, result), world := w2\<rparr>"
      let ?st1 = "record_completion E n v result ?st0"
      from eq False new have r: "gui_drain E n vs ?st1 = (how, st2)" by simp
      note ih = Cons.IH[OF r]
      note fr = record_completion_frame[of E n v result ?st0]
      from record_completion_trace[of E n v result ?st0] obtain es1 where
        es1: "trace (world ?st1) = trace w2 @ es1" "list_all quiet es1" by auto
      have t1: "trace (world ?st1) = trace (world st) @ (es0 @ es1)"
        using es1(1) t2 by simp
      have q1: "list_all quiet (es0 @ es1)" using es0(2) es1(2) by simp
      have p1: "processed_urls ?st1 = insert (url v) (processed_urls st)"
        using fr by simp
      have f1: "future ?st1 = Some (v, result)" using fr by simp
      have s1: "all_successful_downloads ?st1 = all_successful_downloads st"
        using fr by simp
      have l1: "all_failed_downloads ?st1 = all_failed_downloads st"
        using fr by simp
      have a: "all_successful_downloads st2 = all_successful_downloads st"
        using ih[THEN conjunct1] s1 by simp
      have b: "all_failed_downloads st2 = all_failed_downloads st"
        using ih[THEN conjunct2, THEN conjunct1] l1 by simp
      note c = ih[THEN conjunct2, THEN conjunct2]
      show ?thesis
      proof (cases how)
        case Drained
        with c have "drained_ok ?st1 vs st2" by simp
        from drained_ok_Cons[OF this p1 f1 t1 q1] a b Drained show ?thesis by simp
      next
        case (Returning r')
        with c have r1: "r' = all_successful_downloads ?st1" and "cancelled_ok ?st1 vs st2"
          by simp_all
        from cancelled_ok_Cons[OF this(2) p1 t1 q1] r1 s1 a b Returning show ?thesis by simp
      qed
    qed
  qed
qed

lemma gui_finally_continue:
  assumes "future st = Some (v, res)" and "url v \<in> processed_urls st"
  shows "gui_finally E n st = Inr (Continue, st\<lparr>world := log_events [Shutdown True] (world st)\<rparr>)"
  using assms by (simp add: gui_finally_def Let_def)

lemma gui_finally_fallthrough:
  assumes "future st = Some (v, res)" and "url v \<notin> processed_urls st"
  shows "gui_finally E n st =
           Inr (Fallthrough,
                record_completion E n v res (st\<lparr>world := log_events [Shutdown True] (world st)\<rparr>))"
  using assms by (simp add: gui_finally_def Let_def)

lemma as_completed_nonempty: "b \<noteq> [] \<Longrightarrow> as_completed E b \<noteq> []"
proof -
  assume "b \<noteq> []"
  then have "length (as_completed E b) \<noteq> 0" by (simp add: as_completed_def)
  then show ?thesis by fastforce
qed

lemma batch_nonempty: "0 < n \<Longrightarrow> i < length videos \<Longrightarrow> take n (drop i videos) \<noteq> []"
  by simp

lemma gui_batches_done:
  "batch_size = 0 \<or> length videos \<le> i \<Longrightarrow>
   gui_batches E stop videos batch_size i st = Inr (all_successful_downloads st, st)"
  by (subst gui_batches.simps) simp

lemma gui_batches_step:
  assumes "0 < batch_size" and "i < length videos"
    and "poll stop (world st) = (stopped, w1)"
    and "gui_drain E (length videos) (as_completed E (take batch_size (drop i videos)))
           (st\<lparr>successful_downloads := [], failed_downloads := [],
               world := log_events [Submit (take batch_size (drop i videos))] w1\<rparr>) = (how, st2)"
  shows "gui_batches E stop videos batch_size i st =
          (if stopped then Inr (all_successful_downloads st, st\<lparr>world := w1\<rparr>)
           else (case gui_finally E (length videos) st2 of
                   Inl e \<Rightarrow> Inl e
                 | Inr (Continue, st3) \<Rightarrow>
                     gui_batches E stop videos batch_size (i + batch_size) st3
                 | Inr (Fallthrough, st3) \<Rightarrow>
                     (case how of
                        Returning r \<Rightarrow> Inr (r, st3)
                      | Drained \<Rightarrow>
                          gui_batches E stop videos batch_size (i + batch_size)
                            (st3\<lparr>all_successful_downloads :=
                                   all_successful_downloads st3 @ successful_downloads st3,
                                 all_failed_downloads :=
                                   all_failed_downloads st3 @ failed_downloads st3\<rparr>))))"
  using assms by (subst gui_batches.simps) simp

text \<open>
  The loop of the GUI never reaches the lines that add a batch's results to the totals:
  what it returns is \<^verbatim>\<open>all_successful_downloads\<close> as it stood on entry.
\<close>

lemma gui_batches_returns:
  "gui_batches E stop videos batch_size i st = Inr (r, st') \<Longrightarrow>
   r = all_successful_downloads st"
proof (induction "length videos - i" arbitrary: i st rule: less_induct)
  case less
  show ?case
  proof (cases "batch_size = 0 \<or> length videos \<le> i")
    case True
    from less.prems show ?thesis
      unfolding gui_batches_done[OF True] by auto
  next
    case False
    then have bs: "0 < batch_size" and il: "i < length videos" by simp_all
    let ?b = "take batch_size (drop i videos)"
    obtain stopped w1 where p: "poll stop (world st) = (stopped, w1)"
      by (cases "poll stop (world st)")
    let ?st1 = "st\<lparr>successful_downloads := [], failed_downloads := [],
                   world := log_events [Submit ?b] w1\<rparr>"
    obtain how st2 where d: "gui_drain E (length videos) (as_completed E ?b) ?st1 = (how, st2)"
      by (cases "gui_drain E (length videos) (as_completed E ?b) ?st1")
    note eq = less.prems[unfolded gui_batches_step[OF bs il p d]]
    note sp = gui_drain_spec[OF d]
    have a2: "all_successful_downloads st2 = all_successful_downloads st"
      using sp[THEN conjunct1] by simp
    have ne: "as_completed E ?b \<noteq> []"
      by (rule as_completed_nonempty[OF batch_nonempty[OF bs il]])
    have m: "length videos - (i + batch_size) < length videos - i"
      using bs il by arith
    show ?thesis
    proof (cases stopped)
      case True
      with eq show ?thesis by simp
    next
      case ns: False
      show ?thesis
      proof (cases how)
        case Drained
        with sp have "drained_ok ?st1 (as_completed E ?b) st2" by simp
        with ne obtain res where
          f: "future st2 = Some (last (as_completed E ?b), res)"
          and pr: "processed_urls st2 = processed_urls ?st1 \<union> url ` set (as_completed E ?b)"
          unfolding drained_ok_def by blast
        from last_in_set[OF ne] have "last (as_completed E ?b) \<in> set ?b"
          by simp
        then have "url (last (as_completed E ?b)) \<in> url ` set ?b"
          by (rule imageI)
        with pr have "url (last (as_completed E ?b)) \<in> processed_urls st2"
          by simp
        note fin = gui_finally_continue[OF f this, of E "length videos"]
        from eq ns have "gui_batches E stop videos batch_size (i + batch_size)
              (st2\<lparr>world := log_events [Shutdown True] (world st2)\<rparr>) = Inr (r, st')"
          unfolding fin by simp
        from less.hyps[OF m this] a2 show ?thesis by simp
      next
        case (Returning r0)
        with sp have r0: "r0 = all_successful_downloads ?st1"
          and "cancelled_ok ?st1 (as_completed E ?b) st2" by simp_all
        then obtain v res where f: "future st2 = Some (v, res)"
          unfolding cancelled_ok_def by blast
        show ?thesis
        proof (cases "url v \<in> processed_urls st2")
          case True
          note fin = gui_finally_continue[OF f True, of E "length videos"]
          from eq ns have "gui_batches E stop videos batch_size (i + batch_size)
              (st2\<lparr>world := log_events [Shutdown True] (world st2)\<rparr>) = Inr (r, st')"
            unfolding fin by simp
          from less.hyps[OF m this] a2 show ?thesis by simp
        next
          case False
          note fin = gui_finally_fallthrough[OF f False, of E "length videos"]
          from eq ns Returning have "r = r0"
            unfolding fin by simp
          with r0 show ?thesis by simp
        qed
      qed
    qed
  qed
qed

lemma gui_returns_nothing:
  "gui_parallel_download_videos E videos batch_size stop w = Inr (r, st) \<Longrightarrow> r = []"
proof -
  assume a: "gui_parallel_download_videos E videos batch_size stop w = Inr (r, st)"
  show ?thesis
  proof (cases "0 < batch_size")
    case True
    with a have "gui_batches E stop videos (nat batch_size) 0 (init_state [] w) = Inr (r, st)"
      by (simp add: gui_parallel_download_videos_def)
    from gui_batches_returns[OF this] show ?thesis by (simp add: init_state_def)
  next
    case False
    with a show ?thesis
      by (auto simp: gui_parallel_download_videos_def split: if_splits)
  qed
qed

lemma quiet_silent:
  "list_all quiet es \<Longrightarrow> submitted es = [] \<and> pool_events es = []"
proof (induction es)
  case Nil
  then show ?case by (simp add: submitted_def pool_events_def)
next
  case (Cons e es)
  then show ?case
    by (cases e) (simp_all add: submitted_def pool_events_def)
qed

lemma poll_never: "never_set ev \<Longrightarrow> fst (poll ev w) = False"
  by (auto simp: never_set_def poll_def split: option.splits)

lemma gui_drain_never:
  "never_set (stop_event E) \<Longrightarrow> fst (gui_drain E n cs st) = Drained"
proof (induction cs arbitrary: st)
  case Nil
  then show ?case by simp
next
  case (Cons v vs)
  obtain result w1 where d: "gui_download_video E (world st) v = (result, w1)"
    by (cases "gui_download_video E (world st) v")
  obtain stop w2 where p: "poll (stop_event E) w1 = (stop, w2)"
    by (cases "poll (stop_event E) w1")
  from poll_never[OF Cons.prems, of w1] p have ns: "\<not> stop" by simp
  show ?case
    unfolding gui_drain_Cons_cases[OF d p] using ns Cons.IH[OF Cons.prems] by simp
qed

lemma gui_batches_never:
  assumes "0 < batch_size" and "never_set stop" and "never_set (stop_event E)"
  shows "\<exists>r st' es.
           gui_batches E stop videos batch_size i st = Inr (r, st') \<and>
           trace (world st') = trace (world st) @ es \<and>
           submitted es = slices batch_size (drop i videos) \<and>
           pool_events es =
             concat (map (\<lambda>b. [Submit b, Shutdown True]) (slices batch_size (drop i videos)))"
proof (induction "length videos - i" arbitrary: i st rule: less_induct)
  case less
  show ?case
  proof (cases "length videos \<le> i")
    case True
    then have e: "gui_batches E stop videos batch_size i st = Inr (all_successful_downloads st, st)"
      by (simp add: gui_batches_done)
    from True have s: "slices batch_size (drop i videos) = []" by simp
    show ?thesis
      apply (rule exI[of _ "all_successful_downloads st"], rule exI[of _ st], rule exI[of _ "[]"])
      using e s by (simp add: submitted_def pool_events_def)
  next
    case False
    then have il: "i < length videos" by simp
    note bs = assms(1)
    let ?b = "take batch_size (drop i videos)"
    obtain stopped w1 where p: "poll stop (world st) = (stopped, w1)"
      by (cases "poll stop (world st)")
    from poll_never[OF assms(2), of "world st"] p have ns: "\<not> stopped" by simp
    from poll_world[OF p] have tw: "trace w1 = trace (world st)" by simp
    let ?st1 = "st\<lparr>successful_downloads := [], failed_downloads := [],
                   world := log_events [Submit ?b] w1\<rparr>"
    obtain how st2 where d: "gui_drain E (length videos) (as_completed E ?b) ?st1 = (how, st2)"
      by (cases "gui_drain E (length videos) (as_completed E ?b) ?st1")
    from gui_drain_never[OF assms(3), of "length videos" "as_completed E ?b" ?st1] d
    have hd: "how = Drained" by simp
    note sp = gui_drain_spec[OF d]
    have ne: "as_completed E ?b \<noteq> []"
      by (rule as_completed_nonempty[OF batch_nonempty[OF bs il]])
    from sp hd have "drained_ok ?st1 (as_completed E ?b) st2" by simp
    with ne obtain res es1 where
      f: "future st2 = Some (last (as_completed E ?b), res)"
      and pr: "processed_urls st2 = processed_urls ?st1 \<union> url ` set (as_completed E ?b)"
      and t2: "trace (world st2) = trace (world ?st1) @ es1" and q1: "list_all quiet es1"
      unfolding drained_ok_def by blast
    from last_in_set[OF ne] have "last (as_completed E ?b) \<in> set ?b"
      by simp
    then have "url (last (as_completed E ?b)) \<in> url ` set ?b"
      by (rule imageI)
    with pr have "url (last (as_completed E ?b)) \<in> processed_urls st2"
      by simp
    note fin = gui_finally_continue[OF f this, of E "length videos"]
    let ?st3 = "st2\<lparr>world := log_events [Shutdown True] (world st2)\<rparr>"
    have step: "gui_batches E stop videos batch_size i st =
                  gui_batches E stop videos batch_size (i + batch_size) ?st3"
      unfolding gui_batches_step[OF bs il p d] fin using ns by simp
    have m: "length videos - (i + batch_size) < length videos - i"
      using bs il by arith
    from less[OF m, of ?st3] obtain r st' es where
      ih: "gui_batches E stop videos batch_size (i + batch_size) ?st3 = Inr (r, st')"
          "trace (world st') = trace (world ?st3) @ es"
          "submitted es = slices batch_size (drop (i + batch_size) videos)"
          "pool_events es = concat (map (\<lambda>b. [Submit b, Shutdown True])
                                     (slices batch_size (drop (i + batch_size) videos)))"
      by blast
    have t3: "trace (world ?st3) = trace (world st) @ [Submit ?b] @ es1 @ [Shutdown True]"
      using t2 tw by (simp add: log_events_def)
    from il have dne: "drop i videos \<noteq> []" by simp
    have dd: "drop batch_size (drop i videos) = drop (i + batch_size) videos"
      by (simp add: add.commute)
    have sl: "slices batch_size (drop i videos) =
                ?b # slices batch_size (drop (i + batch_size) videos)"
      using slices_step[OF bs dne] unfolding dd .
    note qs = quiet_silent[OF q1]
    have s: "submitted ([Submit ?b] @ es1 @ [Shutdown True] @ es) =
               slices batch_size (drop i videos)"
      unfolding sl using qs ih(3) by (simp add: submitted_def)
    have q: "pool_events ([Submit ?b] @ es1 @ [Shutdown True] @ es) =
               concat (map (\<lambda>b. [Submit b, Shutdown True]) (slices batch_size (drop i videos)))"
      unfolding sl using qs ih(4) by (simp add: pool_events_def)
    have t: "trace (world st') = trace (world st) @ ([Submit ?b] @ es1 @ [Shutdown True] @ es)"
      unfolding ih(2) t3 by simp
    show ?thesis
      apply (rule exI[of _ r], rule exI[of _ st'])
      apply (rule exI[of _ "[Submit ?b] @ es1 @ [Shutdown True] @ es"])
      using step ih(1) t s q by (intro conjI) simp_all
  qed
qed

text \<open>The same for the command line, and what it returns.\<close>

lemma cli_run_trace:
  assumes "0 < batch_size" and "all_yes inp"
    and "int (length videos) \<le> batch_size * (int (length inp) + 1)"
  shows "\<exists>r st es.
           parallel_download_videos E videos batch_size inp w = Inr (r, st) \<and>
           r = all_successful_downloads st \<and>
           trace (world st) = trace w @ es \<and>
           verified_paths es = r \<and>
           submitted es = slices (nat batch_size) videos \<and>
           pool_events es =
             concat (map (\<lambda>b. [Submit b, Shutdown True]) (slices (nat batch_size) videos))"
proof -
  let ?bss = "slices (nat batch_size) videos"
  let ?ini = "init_state inp w"
  let ?fin = "process_all E ?bss ?ini"
  from cli_run[OF assms, of E w] obtain k where
    k: "parallel_download_videos E videos batch_size inp w =
          Inr (all_successful_downloads ?fin, ?fin\<lparr>stdin := drop k inp\<rparr>)"
    by blast
  obtain ps fs es where
    l0: "all_successful_downloads ?fin = all_successful_downloads ?ini @ ps \<and>
         all_failed_downloads ?fin = all_failed_downloads ?ini @ fs \<and>
         trace (world ?fin) = trace (world ?ini) @ es \<and>
         verified_paths es = ps \<and> submitted es = ?bss \<and>
         pool_events es = concat (map (\<lambda>b. [Submit b, Shutdown True]) ?bss) \<and>
         set fs \<subseteq> url ` set (concat ?bss) - processed_urls ?ini"
    using process_all_lists[of E ?bss ?ini] by (elim exE) (rule that)
  note l = l0[THEN conjunct1] l0[THEN conjunct2, THEN conjunct2, THEN conjunct1]
    l0[THEN conjunct2, THEN conjunct2, THEN conjunct2, THEN conjunct1]
    l0[THEN conjunct2, THEN conjunct2, THEN conjunct2, THEN conjunct2, THEN conjunct1]
    l0[THEN conjunct2, THEN conjunct2, THEN conjunct2, THEN conjunct2, THEN conjunct2,
       THEN conjunct1]
  have w0: "world ?ini = w" and a0: "all_successful_downloads ?ini = []"
    by (simp_all add: init_state_def)
  have 1: "all_successful_downloads (?fin\<lparr>stdin := drop k inp\<rparr>) = all_successful_downloads ?fin"
    by simp
  have 2: "trace (world (?fin\<lparr>stdin := drop k inp\<rparr>)) = trace w @ es"
    using l(2) unfolding w0 by simp
  have 3: "verified_paths es = all_successful_downloads ?fin"
    using l(1,3) unfolding a0 by simp
  show ?thesis
    apply (rule exI[of _ "all_successful_downloads ?fin"])
    apply (rule exI[of _ "?fin\<lparr>stdin := drop k inp\<rparr>"], rule exI[of _ es])
    apply (intro conjI)
         apply (rule k)
        apply (rule 1[symmetric])
       apply (rule 2)
      apply (rule 3)
     apply (rule l(4))
    apply (rule l(5))
    done
qed

lemma requested_append [simp]: "requested (s @ t) = requested s @ requested t"
  by (simp add: requested_def)

lemma accounting_silent:
  "list_all accounting es \<Longrightarrow>
   submitted es = [] \<and> pool_events es = [] \<and> requested es = []"
proof (induction es)
  case Nil
  then show ?case by (simp add: submitted_def pool_events_def requested_def)
next
  case (Cons e es)
  then show ?case
    by (cases e) (simp_all add: submitted_def pool_events_def requested_def)
qed

lemma handle_result_accounting:
  "\<exists>es. trace (world (handle_result v result st)) = trace (world st) @ es \<and>
        list_all accounting es"
  using handle_result_cases[of result v st]
  by (auto simp: log_events_def)

lemma handle_result_files:
  "files (world (handle_result v result st)) = files (world st)"
  using handle_result_cases[of result v st]
  by (auto simp: log_events_def)

lemma record_completion_accounting:
  "\<exists>es. trace (world (record_completion E n v result st)) = trace (world st) @ es \<and>
        list_all accounting es"
proof -
  let ?st0 = "st\<lparr>processed_urls := insert (url v) (processed_urls st),
                 videos_processed := videos_processed st + 1\<rparr>"
  from handle_result_accounting[of v result ?st0] obtain es where
    es: "trace (world (handle_result v result ?st0)) = trace (world st) @ es"
        "list_all accounting es"
    by auto
  show ?thesis
  proof (cases "gui_callback E")
    case True
    show ?thesis
      apply (rule exI[of _ "es @ [Progress (videos_processed (handle_result v result ?st0)) n]"])
      using True es by (simp add: record_completion_def Let_def log_events_def)
  next
    case False
    show ?thesis
      apply (rule exI[of _ es])
      using False es by (simp add: record_completion_def Let_def)
  qed
qed

lemma record_completion_files:
  "files (world (record_completion E n v result st)) = files (world st)"
  by (simp add: record_completion_def Let_def handle_result_files log_events_def)

text \<open>A worker that finds no file at its path makes a request for its URL, and for no other.\<close>

lemma fetch_trace_events: "list_all fetch_event (fetch_trace u k)"
  by (induction u k rule: fetch_trace.induct) simp_all

lemma requested_fetch_trace: "0 < k \<Longrightarrow> set (requested (fetch_trace u k)) = {u}"
  by (induction u k rule: fetch_trace.induct) (simp_all add: requested_def)

lemma download_video_requests:
  assumes "download_video E w v = (r, w')" and "filepath E v = Some fp" and "files w fp = None"
  shows "\<exists>s. trace w' = trace w @ s \<and> list_all fetch_event s \<and> set (requested s) = {url v}"
proof -
  from assms have "attempts E (url v) fp 0 w = (r, w')"
    by (simp add: download_video_def)
  from attempts_fetch_trace[OF this] obtain k where
    k: "k \<in> {1, 2, 3}" "trace w' = trace w @ fetch_trace (url v) k" by blast
  from k(1) have "0 < k" by auto
  from requested_fetch_trace[OF this] k(2) fetch_trace_events show ?thesis by blast
qed

lemma completion_requests:
  assumes "filepath E v = Some fp" and "files (world st) fp = None"
  shows "\<exists>s. trace (world (completion E v st)) = trace (world st) @ s \<and>
             pool_events s = [] \<and> set (requested s) = {url v}"
proof -
  obtain r w1 where d: "download_video E (world st) v = (r, w1)"
    by (cases "download_video E (world st) v")
  from download_video_requests[OF d assms] obtain s0 where
    s0: "trace w1 = trace (world st) @ s0" "list_all fetch_event s0"
        "set (requested s0) = {url v}" by blast
  from fetch_events_silent[OF s0(2)] have p0: "pool_events s0 = []" by simp
  show ?thesis
  proof (cases "url v \<in> processed_urls st")
    case True
    then have "completion E v st = st\<lparr>world := w1\<rparr>" by (simp add: completion_def d)
    with s0 p0 show ?thesis by auto
  next
    case False
    let ?st1 = "st\<lparr>world := w1, processed_urls := insert (url v) (processed_urls st)\<rparr>"
    from False have c: "completion E v st = handle_result v r ?st1"
      by (simp add: completion_def d)
    from handle_result_accounting[of v r ?st1] obtain es where
      es: "trace (world (handle_result v r ?st1)) = trace w1 @ es" "list_all accounting es"
      by auto
    note q = accounting_silent[OF es(2)]
    have 1: "trace (world (completion E v st)) = trace (world st) @ (s0 @ es)"
      unfolding c es(1) s0(1) by simp
    have 2: "pool_events (s0 @ es) = []" using p0 q by simp
    have 3: "set (requested (s0 @ es)) = {url v}" using s0(3) q by simp
    from 1 2 3 show ?thesis by blast
  qed
qed

lemma fresh_paths_Cons:
  assumes "fresh_paths E w (v # vs)"
  shows "\<exists>fp. filepath E v = Some fp \<and> files w fp = None \<and>
              (\<forall>u\<in>set vs. filepath E u \<noteq> Some fp)"
    and "fresh_paths E w vs"
proof -
  from assms have dd: "distinct (map (filepath E) (v # vs))"
    unfolding fresh_paths_def by (rule conjunct1)
  from assms
  have tt: "list_all (\<lambda>v. case filepath E v of None \<Rightarrow> False | Some fp \<Rightarrow> files w fp = None)
              (v # vs)"
    unfolding fresh_paths_def by (rule conjunct2)
  from dd have d: "filepath E v \<notin> set (map (filepath E) vs)"
    and dv: "distinct (map (filepath E) vs)"
    by (simp_all del: set_map)
  from tt have h: "case filepath E v of None \<Rightarrow> False | Some fp \<Rightarrow> files w fp = None"
    and t: "list_all (\<lambda>v. case filepath E v of None \<Rightarrow> False | Some fp \<Rightarrow> files w fp = None) vs"
    by simp_all
  from h obtain fp where fp: "filepath E v = Some fp" "files w fp = None"
    by (cases "filepath E v") simp_all
  have n: "\<forall>u\<in>set vs. filepath E u \<noteq> Some fp"
  proof
    fix u assume "u \<in> set vs"
    then have m: "filepath E u \<in> set (map (filepath E) vs)" by simp
    show "filepath E u \<noteq> Some fp"
    proof
      assume "filepath E u = Some fp"
      with m have "Some fp \<in> set (map (filepath E) vs)" by (simp del: set_map)
      with d show False unfolding fp(1) by (rule notE)
    qed
  qed
  from fp n show "\<exists>fp. filepath E v = Some fp \<and> files w fp = None \<and>
              (\<forall>u\<in>set vs. filepath E u \<noteq> Some fp)"
    by (intro exI conjI)
  from dv t show "fresh_paths E w vs" unfolding fresh_paths_def by (rule conjI)
qed

lemma fresh_paths_cong:
  assumes "fresh_paths E w vs"
    and "\<And>u q. u \<in> set vs \<Longrightarrow> filepath E u = Some q \<Longrightarrow> files w' q = files w q"
  shows "fresh_paths E w' vs"
proof -
  from assms(1) have d: "distinct (map (filepath E) vs)"
    unfolding fresh_paths_def by (rule conjunct1)
  from assms(1)
  have t: "list_all (\<lambda>v. case filepath E v of None \<Rightarrow> False | Some fp \<Rightarrow> files w fp = None) vs"
    unfolding fresh_paths_def by (rule conjunct2)
  have "list_all (\<lambda>v. case filepath E v of None \<Rightarrow> False | Some fp \<Rightarrow> files w' fp = None) vs"
    unfolding list_all_iff
  proof
    fix u assume u: "u \<in> set vs"
    from t[unfolded list_all_iff, rule_format, OF u]
    have c: "case filepath E u of None \<Rightarrow> False | Some fp \<Rightarrow> files w fp = None" .
    then obtain q where q: "filepath E u = Some q" "files w q = None"
      by (cases "filepath E u") simp_all
    from assms(2)[OF u q(1)] q(2) have "files w' q = None" by simp
    then show "case filepath E u of None \<Rightarrow> False | Some fp \<Rightarrow> files w' fp = None"
      unfolding q(1) by simp
  qed
  with d show ?thesis unfolding fresh_paths_def by (rule conjI)
qed

lemma fresh_paths_append:
  assumes "fresh_paths E w (xs @ ys)"
  shows "fresh_paths E w xs" and "fresh_paths E w ys"
    and "\<And>u q. u \<in> set ys \<Longrightarrow> filepath E u = Some q \<Longrightarrow> \<forall>x\<in>set xs. filepath E x \<noteq> Some q"
proof -
  from assms have dd: "distinct (map (filepath E) xs @ map (filepath E) ys)"
    unfolding fresh_paths_def map_append by (rule conjunct1)
  from assms
  have tt: "list_all (\<lambda>v. case filepath E v of None \<Rightarrow> False | Some fp \<Rightarrow> files w fp = None)
              (xs @ ys)"
    unfolding fresh_paths_def by (rule conjunct2)
  note da = dd[unfolded distinct_append]
  from da have d1: "distinct (map (filepath E) xs)" by (rule conjunct1)
  from da have d2: "distinct (map (filepath E) ys)" by (rule conjunct2[THEN conjunct1])
  from da have i: "set (map (filepath E) xs) \<inter> set (map (filepath E) ys) = {}"
    by (rule conjunct2[THEN conjunct2])
  from tt have t1: "list_all (\<lambda>v. case filepath E v of None \<Rightarrow> False | Some fp \<Rightarrow> files w fp = None) xs"
    and t2: "list_all (\<lambda>v. case filepath E v of None \<Rightarrow> False | Some fp \<Rightarrow> files w fp = None) ys"
    by simp_all
  from d1 t1 show "fresh_paths E w xs" unfolding fresh_paths_def by (rule conjI)
  from d2 t2 show "fresh_paths E w ys" unfolding fresh_paths_def by (rule conjI)
  fix u q assume u: "u \<in> set ys" and q: "filepath E u = Some q"
  from u have "filepath E u \<in> set (map (filepath E) ys)" by simp
  then have my: "Some q \<in> set (map (filepath E) ys)" unfolding q .
  show "\<forall>x\<in>set xs. filepath E x \<noteq> Some q"
  proof
    fix x assume "x \<in> set xs"
    then have mx: "filepath E x \<in> set (map (filepath E) xs)" by simp
    show "filepath E x \<noteq> Some q"
    proof
      assume "filepath E x = Some q"
      with mx have "Some q \<in> set (map (filepath E) xs)" by (simp del: set_map)
      from IntI[OF this my] show False unfolding i by (rule emptyE)
    qed
  qed
qed

lemma distinct_map_sort_key: "distinct (map f xs) \<Longrightarrow> distinct (map f (sort_key k xs))"
proof -
  assume "distinct (map f xs)"
  then have "distinct xs" and "inj_on f (set xs)"
    unfolding distinct_map by (rule conjunct1, rule conjunct2)
  then have "distinct (sort_key k xs)" and "inj_on f (set (sort_key k xs))"
    by simp_all
  then show ?thesis unfolding distinct_map by (rule conjI)
qed

lemma fresh_paths_as_completed:
  "fresh_paths E w b \<Longrightarrow> fresh_paths E w (as_completed E b)"
proof -
  assume a: "fresh_paths E w b"
  then have d: "distinct (map (filepath E) b)"
    unfolding fresh_paths_def by (rule conjunct1)
  from a
  have t: "list_all (\<lambda>v. case filepath E v of None \<Rightarrow> False | Some fp \<Rightarrow> files w fp = None) b"
    unfolding fresh_paths_def by (rule conjunct2)
  from d have 1: "distinct (map (filepath E) (as_completed E b))"
    unfolding as_completed_def by (rule distinct_map_sort_key)
  from t have 2: "list_all (\<lambda>v. case filepath E v of None \<Rightarrow> False | Some fp \<Rightarrow> files w fp = None)
                    (as_completed E b)"
    unfolding list_all_iff set_as_completed .
  from 1 2 show ?thesis unfolding fresh_paths_def by (rule conjI)
qed

text \<open>The loop over the completions of a batch works on the batch.\<close>

lemma drain_requests:
  "fresh_paths E (world st) cs \<Longrightarrow>
   \<exists>s. trace (world (drain E cs st)) = trace (world st) @ s \<and>
       pool_events s = [] \<and> set (requested s) = url ` set cs"
proof (induction cs arbitrary: st)
  case Nil
  show ?case by (simp add: pool_events_def requested_def)
next
  case (Cons v vs)
  from fresh_paths_Cons(1)[OF Cons.prems] obtain fp where
    fp: "filepath E v = Some fp" "files (world st) fp = None"
        "\<forall>u\<in>set vs. filepath E u \<noteq> Some fp" by blast
  note fr = fresh_paths_Cons(2)[OF Cons.prems]
  let ?st1 = "completion E v st"
  from completion_requests[OF fp(1,2)] obtain s0 where
    s0: "trace (world ?st1) = trace (world st) @ s0" "pool_events s0 = []"
        "set (requested s0) = {url v}" by blast
  have "fresh_paths E (world ?st1) vs"
  proof (rule fresh_paths_cong[OF fr])
    fix u q assume u: "u \<in> set vs" and q: "filepath E u = Some q"
    from fp(3) u q have "q \<noteq> fp" by auto
    with fp(1) have "filepath E v \<noteq> Some q" by simp
    then show "files (world ?st1) q = files (world st) q" by (rule completion_files)
  qed
  from Cons.IH[OF this] obtain s1 where
    s1: "trace (world (drain E vs ?st1)) = trace (world ?st1) @ s1" "pool_events s1 = []"
        "set (requested s1) = url ` set vs" by blast
  have e: "drain E (v # vs) st = drain E vs ?st1"
    by (simp add: drain_foldl)
  have 1: "trace (world (drain E (v # vs) st)) = trace (world st) @ (s0 @ s1)"
    unfolding e s1(1) s0(1) by simp
  have 2: "pool_events (s0 @ s1) = []" using s0(2) s1(2) by simp
  have 3: "set (requested (s0 @ s1)) = url ` set (v # vs)" using s0(3) s1(3) by simp
  from 1 2 3 show ?case by blast
qed

lemma process_batch_requests:
  assumes "fresh_paths E (world st) b"
  shows "\<exists>s. trace (world (process_batch E b st)) = trace (world st) @ batch_run b s \<and>
             works_on b s"
proof -
  let ?st1 = "st\<lparr>successful_downloads := [], failed_downloads := [],
                 world := log_events [Submit b] (world st)\<rparr>"
  have "fresh_paths E (world ?st1) b"
    by (rule fresh_paths_cong[OF assms]) (simp add: log_events_def)
  from drain_requests[OF fresh_paths_as_completed[OF this]] obtain s where
    s: "trace (world (drain E (as_completed E b) ?st1)) = trace (world ?st1) @ s"
       "pool_events s = []" "set (requested s) = url ` set (as_completed E b)" by blast
  have 1: "trace (world (process_batch E b st)) = trace (world st) @ batch_run b s"
    using s(1) by (simp add: process_batch_def Let_def log_events_def batch_run_def)
  have 2: "works_on b s" using s(2,3) by (simp add: works_on_def)
  from 1 2 show ?thesis by blast
qed

lemma process_all_requests:
  "fresh_paths E (world st) (concat bss) \<Longrightarrow>
   \<exists>segs. list_all2 works_on bss segs \<and>
          trace (world (process_all E bss st)) =
            trace (world st) @ concat (map2 batch_run bss segs)"
proof (induction bss arbitrary: st)
  case Nil
  show ?case by (simp add: process_all_def)
next
  case (Cons b bss)
  from Cons.prems have fr: "fresh_paths E (world st) (b @ concat bss)" by simp
  note f = fresh_paths_append[OF fr]
  let ?st1 = "process_batch E b st"
  from process_batch_requests[OF f(1)] obtain s where
    s: "trace (world ?st1) = trace (world st) @ batch_run b s" "works_on b s" by blast
  have "fresh_paths E (world ?st1) (concat bss)"
  proof (rule fresh_paths_cong[OF f(2)])
    fix u q assume u: "u \<in> set (concat bss)" and q: "filepath E u = Some q"
    from f(3)[OF u q] show "files (world ?st1) q = files (world st) q"
      by (rule process_batch_files)
  qed
  from Cons.IH[OF this] obtain segs where
    g: "list_all2 works_on bss segs"
       "trace (world (process_all E bss ?st1)) =
          trace (world ?st1) @ concat (map2 batch_run bss segs)" by blast
  have 1: "list_all2 works_on (b # bss) (s # segs)" using s(2) g(1) by simp
  have 2: "trace (world (process_all E (b # bss) st)) =
             trace (world st) @ concat (map2 batch_run (b # bss) (s # segs))"
    unfolding process_all_Cons g(2) s(1) by simp
  from 1 2 show ?case by blast
qed

text \<open>The same for the GUI when no stop signal is ever set.\<close>

lemma gui_download_video_requests:
  assumes "never_set (stop_event E)" and "gui_download_video E w v = (r, w')"
    and "filepath E v = Some fp" and "files w fp = None"
  shows "\<exists>s. trace w' = trace w @ s \<and> list_all fetch_event s \<and> set (requested s) = {url v} \<and>
             (\<forall>q. q \<noteq> fp \<longrightarrow> files w' q = files w q)"
proof -
  obtain stop w1 where p: "poll (stop_event E) w = (stop, w1)"
    by (cases "poll (stop_event E) w")
  from poll_never[OF assms(1), of w] p have ns: "\<not> stop" by simp
  from poll_world[OF p] have tw: "trace w1 = trace w" and fw: "files w1 = files w" by simp_all
  from assms(2) p ns have d: "download_video E w1 v = (r, w')"
    by (simp add: gui_download_video_def)
  from assms(4) fw have a: "files w1 fp = None" by simp
  from download_video_requests[OF d assms(3) a] obtain s where
    s: "trace w' = trace w1 @ s" "list_all fetch_event s" "set (requested s) = {url v}"
    by blast
  from download_video_local[OF d] assms(3)
  have l: "\<forall>q. q \<noteq> fp \<longrightarrow> files w' q = files w1 q" by simp
  have 1: "trace w' = trace w @ s" using s(1) tw by simp
  have 2: "\<forall>q. q \<noteq> fp \<longrightarrow> files w' q = files w q" using l fw by simp
  from 1 s(2,3) 2 show ?thesis by blast
qed

lemma gui_drain_requests:
  assumes ns: "never_set (stop_event E)"
  shows "fresh_paths E (world st) cs \<Longrightarrow>
         \<exists>st2 s. gui_drain E n cs st = (Drained, st2) \<and>
           trace (world st2) = trace (world st) @ s \<and>
           pool_events s = [] \<and> set (requested s) = url ` set cs \<and>
           (\<forall>q. (\<forall>u\<in>set cs. filepath E u \<noteq> Some q) \<longrightarrow>
                files (world st2) q = files (world st) q)"
proof (induction cs arbitrary: st)
  case Nil
  show ?case by (simp add: pool_events_def requested_def)
next
  case (Cons v vs)
  from fresh_paths_Cons(1)[OF Cons.prems] obtain fp where
    fp: "filepath E v = Some fp" "files (world st) fp = None"
        "\<forall>u\<in>set vs. filepath E u \<noteq> Some fp" by blast
  note fr = fresh_paths_Cons(2)[OF Cons.prems]
  obtain result w1 where d: "gui_download_video E (world st) v = (result, w1)"
    by (cases "gui_download_video E (world st) v")
  obtain stop w2 where p: "poll (stop_event E) w1 = (stop, w2)"
    by (cases "poll (stop_event E) w1")
  from poll_never[OF ns, of w1] p have nst: "\<not> stop" by simp
  from poll_world[OF p] have tw: "trace w2 = trace w1" and fw: "files w2 = files w1"
    by simp_all
  from gui_download_video_requests[OF ns d fp(1,2)] obtain s0 where
    s0: "trace w1 = trace (world st) @ s0" "list_all fetch_event s0"
        "set (requested s0) = {url v}"
        "\<forall>q. q \<noteq> fp \<longrightarrow> files w1 q = files (world st) q" by blast
  from fetch_events_silent[OF s0(2)] have p0: "pool_events s0 = []" by simp
  let ?st0 = "st\<lparr>future := Some (v, result), world := w2\<rparr>"
  define st1 where "st1 = (if url v \<in> processed_urls st then ?st0
                           else record_completion E n v result ?st0)"
  have e: "gui_drain E n (v # vs) st = gui_drain E n vs st1"
    unfolding gui_drain_Cons_cases[OF d p] st1_def using nst by simp
  have "\<exists>es. trace (world st1) = trace w2 @ es \<and> list_all accounting es"
  proof (cases "url v \<in> processed_urls st")
    case True
    then have "trace (world st1) = trace w2 @ []" by (simp add: st1_def)
    moreover have "list_all accounting []" by simp
    ultimately show ?thesis by blast
  next
    case False
    then have "st1 = record_completion E n v result ?st0" by (simp add: st1_def)
    with record_completion_accounting[of E n v result ?st0] show ?thesis by simp
  qed
  then obtain es where es: "trace (world st1) = trace w2 @ es" "list_all accounting es"
    by blast
  note q = accounting_silent[OF es(2)]
  have f1: "files (world st1) = files w2"
    by (simp add: st1_def record_completion_files)
  have t1: "trace (world st1) = trace (world st) @ (s0 @ es)"
    unfolding es(1) tw s0(1) by simp
  have f1': "\<forall>q. q \<noteq> fp \<longrightarrow> files (world st1) q = files (world st) q"
    unfolding f1 fw using s0(4) .
  have "fresh_paths E (world st1) vs"
  proof (rule fresh_paths_cong[OF fr])
    fix u q assume u: "u \<in> set vs" and q: "filepath E u = Some q"
    from fp(3)[rule_format, OF u] q have "q \<noteq> fp" by auto
    with f1' show "files (world st1) q = files (world st) q" by simp
  qed
  from Cons.IH[OF this] obtain st2 s1 where
    i: "gui_drain E n vs st1 = (Drained, st2)"
       "trace (world st2) = trace (world st1) @ s1"
       "pool_events s1 = []" "set (requested s1) = url ` set vs"
       "\<forall>q. (\<forall>u\<in>set vs. filepath E u \<noteq> Some q) \<longrightarrow>
            files (world st2) q = files (world st1) q"
    by blast
  have 1: "gui_drain E n (v # vs) st = (Drained, st2)" unfolding e by (rule i(1))
  have 2: "trace (world st2) = trace (world st) @ ((s0 @ es) @ s1)"
    unfolding i(2) t1 by simp
  have 3: "pool_events ((s0 @ es) @ s1) = []" using p0 q i(3) by simp
  have 4: "set (requested ((s0 @ es) @ s1)) = url ` set (v # vs)"
    using s0(3) q i(4) by simp
  have 5: "\<forall>q. (\<forall>u\<in>set (v # vs). filepath E u \<noteq> Some q) \<longrightarrow>
              files (world st2) q = files (world st) q"
  proof (intro allI impI)
    fix q assume a: "\<forall>u\<in>set (v # vs). filepath E u \<noteq> Some q"
    then have a1: "filepath E v \<noteq> Some q" and a2: "\<forall>u\<in>set vs. filepath E u \<noteq> Some q"
      by simp_all
    from a1 fp(1) have "q \<noteq> fp" by auto
    with f1' have "files (world st1) q = files (world st) q" by simp
    moreover from i(5)[THEN spec, of q] a2 have "files (world st2) q = files (world st1) q"
      by (rule mp)
    ultimately show "files (world st2) q = files (world st) q" by simp
  qed
  show ?case
    apply (rule exI[of _ st2], rule exI[of _ "(s0 @ es) @ s1"])
    using 1 2 3 4 5 by (intro conjI)
qed

lemma gui_batches_requests:
  assumes "0 < batch_size" and "never_set stop" and "never_set (stop_event E)"
  shows "fresh_paths E (world st) (drop i videos) \<Longrightarrow>
         \<exists>r st' segs.
           gui_batches E stop videos batch_size i st = Inr (r, st') \<and>
           list_all2 works_on (slices batch_size (drop i videos)) segs \<and>
           trace (world st') =
             trace (world st) @ concat (map2 batch_run (slices batch_size (drop i videos)) segs)"
proof (induction "length videos - i" arbitrary: i st rule: less_induct)
  case less
  show ?case
  proof (cases "length videos \<le> i")
    case True
    then have e: "gui_batches E stop videos batch_size i st = Inr (all_successful_downloads st, st)"
      by (simp add: gui_batches_done)
    from True have s: "slices batch_size (drop i videos) = []" by simp
    show ?thesis
      apply (rule exI[of _ "all_successful_downloads st"], rule exI[of _ st], rule exI[of _ "[]"])
      using e s by simp
  next
    case False
    then have il: "i < length videos" by simp
    note bs = assms(1)
    let ?b = "take batch_size (drop i videos)"
    let ?rest = "drop (i + batch_size) videos"
    have dd: "drop batch_size (drop i videos) = ?rest"
      by (simp add: add.commute)
    have "drop i videos = ?b @ drop batch_size (drop i videos)"
      by (rule append_take_drop_id[symmetric])
    then have sp: "drop i videos = ?b @ ?rest"
      by (simp only: dd)
    from less.prems have "fresh_paths E (world st) (?b @ ?rest)"
      unfolding sp[symmetric] .
    note f = fresh_paths_append[OF this]
    obtain stopped w1 where p: "poll stop (world st) = (stopped, w1)"
      by (cases "poll stop (world st)")
    from poll_never[OF assms(2), of "world st"] p have ns: "\<not> stopped" by simp
    from poll_world[OF p] have tw: "trace w1 = trace (world st)"
      and fw: "files w1 = files (world st)" by simp_all
    let ?st1 = "st\<lparr>successful_downloads := [], failed_downloads := [],
                   world := log_events [Submit ?b] w1\<rparr>"
    have f1: "files (world ?st1) = files (world st)"
      using fw by (simp add: log_events_def)
    have "fresh_paths E (world ?st1) ?b"
      by (rule fresh_paths_cong[OF f(1)]) (simp only: f1)
    from gui_drain_requests[OF assms(3) fresh_paths_as_completed[OF this], of "length videos"]
    obtain st2 s where
      g: "gui_drain E (length videos) (as_completed E ?b) ?st1 = (Drained, st2)"
         "trace (world st2) = trace (world ?st1) @ s"
         "pool_events s = []" "set (requested s) = url ` set (as_completed E ?b)"
         "\<forall>q. (\<forall>u\<in>set (as_completed E ?b). filepath E u \<noteq> Some q) \<longrightarrow>
              files (world st2) q = files (world ?st1) q"
      by blast
    note ds = gui_drain_spec[OF g(1)]
    have ne: "as_completed E ?b \<noteq> []"
      by (rule as_completed_nonempty[OF batch_nonempty[OF bs il]])
    from ds have "drained_ok ?st1 (as_completed E ?b) st2" by simp
    with ne obtain res where
      fu: "future st2 = Some (last (as_completed E ?b), res)"
      and pr: "processed_urls st2 = processed_urls ?st1 \<union> url ` set (as_completed E ?b)"
      unfolding drained_ok_def by blast
    from last_in_set[OF ne] have "last (as_completed E ?b) \<in> set ?b"
      by simp
    then have "url (last (as_completed E ?b)) \<in> url ` set ?b"
      by (rule imageI)
    with pr have "url (last (as_completed E ?b)) \<in> processed_urls st2"
      by simp
    note fin = gui_finally_continue[OF fu this, of E "length videos"]
    let ?st3 = "st2\<lparr>world := log_events [Shutdown True] (world st2)\<rparr>"
    have step: "gui_batches E stop videos batch_size i st =
                  gui_batches E stop videos batch_size (i + batch_size) ?st3"
      unfolding gui_batches_step[OF bs il p g(1)] fin using ns by simp
    have m: "length videos - (i + batch_size) < length videos - i"
      using bs il by arith
    have "fresh_paths E (world ?st3) ?rest"
    proof (rule fresh_paths_cong[OF f(2)])
      fix u q assume u: "u \<in> set ?rest" and q: "filepath E u = Some q"
      from f(3)[OF u q] have "\<forall>x\<in>set (as_completed E ?b). filepath E x \<noteq> Some q"
        by simp
      with g(5)[THEN spec, of q] have "files (world st2) q = files (world ?st1) q"
        by (rule mp)
      then show "files (world ?st3) q = files (world st) q"
        using f1 by (simp add: log_events_def)
    qed
    from less.hyps[OF m this] obtain r st' segs where
      ih: "gui_batches E stop videos batch_size (i + batch_size) ?st3 = Inr (r, st')"
          "list_all2 works_on (slices batch_size ?rest) segs"
          "trace (world st') =
             trace (world ?st3) @ concat (map2 batch_run (slices batch_size ?rest) segs)"
      by blast
    have t3: "trace (world ?st3) = trace (world st) @ batch_run ?b s"
      using g(2) tw by (simp add: log_events_def batch_run_def)
    from il have dne: "drop i videos \<noteq> []" by simp
    have sl: "slices batch_size (drop i videos) = ?b # slices batch_size ?rest"
      using slices_step[OF bs dne] unfolding dd .
    have wo: "works_on ?b s" using g(3,4) by (simp add: works_on_def)
    have 1: "list_all2 works_on (slices batch_size (drop i videos)) (s # segs)"
      unfolding sl using wo ih(2) by simp
    have 2: "trace (world st') =
               trace (world st) @
               concat (map2 batch_run (slices batch_size (drop i videos)) (s # segs))"
      unfolding sl ih(3) t3 by simp
    have 0: "gui_batches E stop videos batch_size i st = Inr (r, st')"
      unfolding step by (rule ih(1))
    show ?thesis
      apply (rule exI[of _ r], rule exI[of _ st'], rule exI[of _ "s # segs"])
      using 0 1 2 by (intro conjI)
  qed
qed

lemma example_env_fields:
  "stop_event example_env = None" "gui_callback example_env = True"
  "http example_env u k = Body [''xy'']" "finish_time example_env v = 0"
  by (simp_all add: example_env_def)

lemma filepath_example_env_A:
  "filepath example_env (example_video ''A'') =
     Some ''downloads/personal_unknown_date_posted_01234567.mp4''"
  by (simp add: filepath_def filename_def date_str_def extension_def is_image_def
      image_extensions_def lower_def lower_char_def path_join_def example_env_def
      example_video_def)

lemma url_example_video: "url (example_video u) = u"
  by (simp add: example_video_def)

lemma cli_run_segments:
  assumes "0 < batch_size" and "all_yes inp"
    and "int (length videos) \<le> batch_size * (int (length inp) + 1)"
    and "fresh_paths E w videos"
  shows "\<exists>r st segs.
           parallel_download_videos E videos batch_size inp w = Inr (r, st) \<and>
           list_all2 works_on (slices (nat batch_size) videos) segs \<and>
           trace (world st) =
             trace w @ concat (map2 batch_run (slices (nat batch_size) videos) segs)"
proof -
  let ?bss = "slices (nat batch_size) videos"
  let ?ini = "init_state inp w"
  let ?fin = "process_all E ?bss ?ini"
  from assms(1) have n: "0 < nat batch_size" by simp
  have cc: "concat ?bss = videos" by (rule concat_slices[OF n])
  have w0: "world ?ini = w" by (simp add: init_state_def)
  from assms(4) have "fresh_paths E (world ?ini) (concat ?bss)"
    unfolding cc w0 .
  from process_all_requests[OF this] obtain segs where
    g: "list_all2 works_on ?bss segs"
       "trace (world ?fin) = trace (world ?ini) @ concat (map2 batch_run ?bss segs)"
    by blast
  from cli_run[OF assms(1-3), of E w] obtain k where
    k: "parallel_download_videos E videos batch_size inp w =
          Inr (all_successful_downloads ?fin, ?fin\<lparr>stdin := drop k inp\<rparr>)"
    by blast
  have t: "trace (world (?fin\<lparr>stdin := drop k inp\<rparr>)) =
             trace w @ concat (map2 batch_run ?bss segs)"
    using g(2) unfolding w0 by simp
  show ?thesis
    apply (rule exI[of _ "all_successful_downloads ?fin"])
    apply (rule exI[of _ "?fin\<lparr>stdin := drop k inp\<rparr>"], rule exI[of _ segs])
    using k g(1) t by (intro conjI)
qed

lemma gui_run_segments:
  assumes "0 < batch_size" and "never_set stop" and "never_set (stop_event E)"
    and "fresh_paths E w videos"
  shows "\<exists>r st segs.
           gui_parallel_download_videos E videos batch_size stop w = Inr (r, st) \<and>
           list_all2 works_on (slices (nat batch_size) videos) segs \<and>
           trace (world st) =
             trace w @ concat (map2 batch_run (slices (nat batch_size) videos) segs)"
proof -
  let ?ini = "init_state [] w"
  from assms(1) have n: "0 < nat batch_size" by simp
  have w0: "world ?ini = w" by (simp add: init_state_def)
  from assms(4) have "fresh_paths E (world ?ini) (drop 0 videos)"
    unfolding w0 by simp
  from gui_batches_requests[OF n assms(2,3) this] obtain r st segs where
    g: "gui_batches E stop videos (nat batch_size) 0 ?ini = Inr (r, st)"
       "list_all2 works_on (slices (nat batch_size) (drop 0 videos)) segs"
       "trace (world st) =
          trace (world ?ini) @ concat (map2 batch_run (slices (nat batch_size) (drop 0 videos)) segs)"
    by blast
  have 1: "gui_parallel_download_videos E videos batch_size stop w = Inr (r, st)"
    using assms(1) g(1) by (simp add: gui_parallel_download_videos_def)
  have 2: "list_all2 works_on (slices (nat batch_size) videos) segs"
    using g(2) by simp
  have 3: "trace (world st) =
             trace w @ concat (map2 batch_run (slices (nat batch_size) videos) segs)"
    using g(3) unfolding w0 by simp
  from 1 2 3 show ?thesis by (intro exI conjI)
qed

text \<open>
  Claim C2 at a failing input. One task, fetched at the first attempt, no stop signal:
  the GUI scheduler verifies the file and puts its path into the batch's list of
  successes, but the \<^verbatim>\<open>continue\<close> of the \<^verbatim>\<open>finally\<close> clause skips the lines that add the batch's
  lists to the totals, and the list returned is empty. The lemma \<open>gui_returns_nothing\<close>
  above shows the same for every run of the GUI scheduler, and \<open>cli_run_trace\<close> shows
  that the command-line scheduler returns exactly the paths it verified, in order.
\<close>

theorem gui_drops_verified_success:
  "(case gui_parallel_download_videos example_env [example_video ''A''] 100 None empty_world of
      Inl e \<Rightarrow> False
    | Inr (r, st) \<Rightarrow>
        r = [] \<and>
        successful_downloads st = [''downloads/personal_unknown_date_posted_01234567.mp4''] \<and>
        verify (world st) ''downloads/personal_unknown_date_posted_01234567.mp4'' \<and>
        verified_paths (trace (world st)) =
          [''downloads/personal_unknown_date_posted_01234567.mp4''])"
  by (simp add: gui_parallel_download_videos_def gui_batches.simps init_state_def poll_def
      as_completed_def gui_download_video_def download_video_def filepath_example_env_A
      example_env_fields url_example_video attempts.simps max_retries_def log_events_def
      write_chunks_def record_completion_def handle_result_def verify_def gui_finally_def
      Let_def empty_world_def verified_paths_def)

text \<open>
  Claim C6 at a failing input. For the same single task, the same answers of the network
  and no cancellation, the command-line scheduler returns the path of the file and the GUI
  scheduler returns the empty list.
\<close>

theorem schedulers_differ:
  "(case parallel_download_videos example_env [example_video ''A''] 100 [] empty_world of
      Inl e \<Rightarrow> False
    | Inr (r, st) \<Rightarrow> r = [''downloads/personal_unknown_date_posted_01234567.mp4'']) \<and>
   (case gui_parallel_download_videos example_env [example_video ''A''] 100 None empty_world of
      Inl e \<Rightarrow> False
    | Inr (r, st) \<Rightarrow> r = [])"
  by (simp add: parallel_download_videos_def batches.simps process_batch_def
      gui_parallel_download_videos_def gui_batches.simps init_state_def poll_def
      as_completed_def gui_download_video_def download_video_def filepath_example_env_A
      example_env_fields url_example_video attempts.simps max_retries_def log_events_def
      write_chunks_def record_completion_def handle_result_def verify_def gui_finally_def
      Let_def empty_world_def)

text \<open>
  Claim C9. For a positive batch size, every question answered with yes and no stop
  signal, both schedulers submit to their pools exactly the contiguous slices of the
  task list, in order: the slices concatenate to the list, each is non-empty and at most
  \<^verbatim>\<open>batch_size\<close> long, and all but the last are exactly \<^verbatim>\<open>batch_size\<close> long. The slices are
  handled one after the other: each pool is shut down, waiting, before the next slice is
  submitted. If moreover every task has a destination path of its own at which no file
  exists, the trace of either scheduler is the concatenation, over the slices in order,
  of the submission of the slice, a stretch of events that holds no event of a pool and
  in which the URLs requested are exactly those of the tasks of the slice, and the
  shutdown of the pool. The witness is the scenario of three tasks and batch size 2: the
  requests for A and B are made between the submission of the first batch and the
  shutdown of its pool, those for C between the submission of the second and its
  shutdown.
\<close>

theorem batches_are_contiguous_slices:
  assumes "0 < batch_size" and "all_yes inp"
    and "int (length videos) \<le> batch_size * (int (length inp) + 1)"
    and "never_set stop" and "never_set (stop_event E)"
  shows "concat (slices (nat batch_size) videos) = videos \<and>
         (\<forall>b\<in>set (slices (nat batch_size) videos). 0 < length b \<and> length b \<le> nat batch_size) \<and>
         (\<forall>b\<in>set (butlast (slices (nat batch_size) videos)). length b = nat batch_size) \<and>
         (\<exists>r st es.
            parallel_download_videos E videos batch_size inp w = Inr (r, st) \<and>
            trace (world st) = trace w @ es \<and>
            submitted es = slices (nat batch_size) videos \<and>
            pool_events es =
              concat (map (\<lambda>b. [Submit b, Shutdown True]) (slices (nat batch_size) videos)) \<and>
            (fresh_paths E w videos \<longrightarrow>
               (\<exists>segs. list_all2 works_on (slices (nat batch_size) videos) segs \<and>
                  es = concat (map2 batch_run (slices (nat batch_size) videos) segs)))) \<and>
         (\<exists>r st es.
            gui_parallel_download_videos E videos batch_size stop w = Inr (r, st) \<and>
            trace (world st) = trace w @ es \<and>
            submitted es = slices (nat batch_size) videos \<and>
            pool_events es =
              concat (map (\<lambda>b. [Submit b, Shutdown True]) (slices (nat batch_size) videos)) \<and>
            (fresh_paths E w videos \<longrightarrow>
               (\<exists>segs. list_all2 works_on (slices (nat batch_size) videos) segs \<and>
                  es = concat (map2 batch_run (slices (nat batch_size) videos) segs))))"
proof -
  let ?sl = "slices (nat batch_size) videos"
  from assms(1) have n: "0 < nat batch_size" by simp
  have 1: "concat ?sl = videos"
    by (rule concat_slices[OF n])
  have 2: "\<forall>b\<in>set ?sl. 0 < length b \<and> length b \<le> nat batch_size"
    using slices_lengths[OF n] by blast
  have 3: "\<forall>b\<in>set (butlast ?sl). length b = nat batch_size"
    using slices_full[OF n] by blast
  from cli_run_trace[OF assms(1-3), of E w] obtain r st es where
    c: "parallel_download_videos E videos batch_size inp w = Inr (r, st)"
       "trace (world st) = trace w @ es"
       "submitted es = ?sl"
       "pool_events es = concat (map (\<lambda>b. [Submit b, Shutdown True]) ?sl)"
    by (elim exE conjE)
  have c5: "\<exists>segs. list_all2 works_on ?sl segs \<and> es = concat (map2 batch_run ?sl segs)"
    if fr: "fresh_paths E w videos"
  proof -
    from cli_run_segments[OF assms(1-3) fr] obtain r1 st1 segs where
      x: "parallel_download_videos E videos batch_size inp w = Inr (r1, st1)"
         "list_all2 works_on ?sl segs"
         "trace (world st1) = trace w @ concat (map2 batch_run ?sl segs)"
      by (elim exE conjE)
    from x(1) c(1) have "st1 = st" by simp
    with x(3) c(2) have "es = concat (map2 batch_run ?sl segs)" by simp
    with x(2) show ?thesis by blast
  qed
  from gui_batches_never[OF n assms(4,5), of videos 0 "init_state [] w"] obtain r' st' es' where
    g: "gui_batches E stop videos (nat batch_size) 0 (init_state [] w) = Inr (r', st')"
       "trace (world st') = trace (world (init_state [] w)) @ es'"
       "submitted es' = slices (nat batch_size) (drop 0 videos)"
       "pool_events es' =
          concat (map (\<lambda>b. [Submit b, Shutdown True]) (slices (nat batch_size) (drop 0 videos)))"
    by (elim exE conjE)
  have g1: "gui_parallel_download_videos E videos batch_size stop w = Inr (r', st')"
    using assms(1) g(1) by (simp add: gui_parallel_download_videos_def)
  have g2: "trace (world st') = trace w @ es'"
    using g(2) by (simp add: init_state_def)
  have g3: "submitted es' = ?sl" using g(3) by simp
  have g4: "pool_events es' = concat (map (\<lambda>b. [Submit b, Shutdown True]) ?sl)"
    using g(4) by simp
  have g5: "\<exists>segs. list_all2 works_on ?sl segs \<and> es' = concat (map2 batch_run ?sl segs)"
    if fr: "fresh_paths E w videos"
  proof -
    from gui_run_segments[OF assms(1,4,5) fr] obtain r1 st1 segs where
      x: "gui_parallel_download_videos E videos batch_size stop w = Inr (r1, st1)"
         "list_all2 works_on ?sl segs"
         "trace (world st1) = trace w @ concat (map2 batch_run ?sl segs)"
      by (elim exE conjE)
    from x(1) g1 have "st1 = st'" by simp
    with x(3) g2 have "es' = concat (map2 batch_run ?sl segs)" by simp
    with x(2) show ?thesis by blast
  qed
  have 4: "\<exists>r st es.
            parallel_download_videos E videos batch_size inp w = Inr (r, st) \<and>
            trace (world st) = trace w @ es \<and>
            submitted es = ?sl \<and>
            pool_events es = concat (map (\<lambda>b. [Submit b, Shutdown True]) ?sl) \<and>
            (fresh_paths E w videos \<longrightarrow>
               (\<exists>segs. list_all2 works_on ?sl segs \<and> es = concat (map2 batch_run ?sl segs)))"
    apply (rule exI[of _ r], rule exI[of _ st], rule exI[of _ es])
    using c c5 by (intro conjI impI)
  have 5: "\<exists>r st es.
            gui_parallel_download_videos E videos batch_size stop w = Inr (r, st) \<and>
            trace (world st) = trace w @ es \<and>
            submitted es = ?sl \<and>
            pool_events es = concat (map (\<lambda>b. [Submit b, Shutdown True]) ?sl) \<and>
            (fresh_paths E w videos \<longrightarrow>
               (\<exists>segs. list_all2 works_on ?sl segs \<and> es = concat (map2 batch_run ?sl segs)))"
    apply (rule exI[of _ r'], rule exI[of _ st'], rule exI[of _ es'])
    using g1 g2 g3 g4 g5 by (intro conjI impI)
  from 1 2 3 4 5 show ?thesis by (intro conjI)
qed

lemma slices_example:
  "slices (nat 2) [a, b, c] = [[a, b], [c]]"
  by (simp add: slices.simps)

lemma fresh_paths_example:
  "fresh_paths distinct_hash_env empty_world
     [example_video ''A'', example_video ''B'', example_video ''C'']"
  by (simp add: fresh_paths_def filepath_distinct_hash empty_world_def)

lemma two_batches:
  assumes "list_all2 works_on [[a, b], [c]] segs"
    and "es = concat (map2 batch_run [[a, b], [c]] segs)"
  shows "\<exists>s1 s2. es = [Submit [a, b]] @ s1 @ [Shutdown True] @ [Submit [c]] @ s2 @ [Shutdown True] \<and>
           pool_events s1 = [] \<and> set (requested s1) = {url a, url b} \<and>
           pool_events s2 = [] \<and> set (requested s2) = {url c}"
proof -
  from assms(1) obtain s1 t where t: "segs = s1 # t" "works_on [a, b] s1" "list_all2 works_on [[c]] t"
    by (auto simp: list_all2_Cons1)
  from t(3) obtain s2 where s2: "t = [s2]" "works_on [c] s2"
    by (auto simp: list_all2_Cons1)
  have 1: "es = [Submit [a, b]] @ s1 @ [Shutdown True] @ [Submit [c]] @ s2 @ [Shutdown True]"
    unfolding assms(2) t(1) s2(1) by (simp add: batch_run_def)
  from t(2) have 2: "pool_events s1 = []" and 3: "set (requested s1) = {url a, url b}"
    by (simp_all add: works_on_def)
  from s2(2) have 4: "pool_events s2 = []" and 5: "set (requested s2) = {url c}"
    by (simp_all add: works_on_def)
  from 1 2 3 4 5 show ?thesis by blast
qed

theorem batches_are_contiguous_slices_witness:
  "all_yes [''y''] \<and> never_set None \<and>
   fresh_paths distinct_hash_env empty_world
     [example_video ''A'', example_video ''B'', example_video ''C''] \<and>
   slices (nat 2) [example_video ''A'', example_video ''B'', example_video ''C''] =
     [[example_video ''A'', example_video ''B''], [example_video ''C'']] \<and>
   (\<exists>r st s1 s2.
      parallel_download_videos distinct_hash_env
        [example_video ''A'', example_video ''B'', example_video ''C''] 2 [''y''] empty_world
        = Inr (r, st) \<and>
      trace (world st) =
        [Submit [example_video ''A'', example_video ''B'']] @ s1 @ [Shutdown True] @
        [Submit [example_video ''C'']] @ s2 @ [Shutdown True] \<and>
      pool_events s1 = [] \<and> set (requested s1) = {''A'', ''B''} \<and>
      pool_events s2 = [] \<and> set (requested s2) = {''C''}) \<and>
   (\<exists>r st s1 s2.
      gui_parallel_download_videos distinct_hash_env
        [example_video ''A'', example_video ''B'', example_video ''C''] 2 None empty_world
        = Inr (r, st) \<and>
      trace (world st) =
        [Submit [example_video ''A'', example_video ''B'']] @ s1 @ [Shutdown True] @
        [Submit [example_video ''C'']] @ s2 @ [Shutdown True] \<and>
      pool_events s1 = [] \<and> set (requested s1) = {''A'', ''B''} \<and>
      pool_events s2 = [] \<and> set (requested s2) = {''C''})"
proof -
  let ?vs = "[example_video ''A'', example_video ''B'', example_video ''C'']"
  let ?E = distinct_hash_env
  have h1: "(0::int) < 2" by simp
  have h2: "all_yes [''y'']" by (simp add: all_yes_def lower_def lower_char_def)
  have h3: "int (length ?vs) \<le> 2 * (int (length [''y'']) + 1)" by simp
  have h4: "never_set None" by (simp add: never_set_def)
  have h5: "never_set (stop_event ?E)"
    by (simp add: never_set_def distinct_hash_env_def example_env_def)
  note h6 = fresh_paths_example
  have t: "trace empty_world = []" by (simp add: empty_world_def)
  have u: "url (example_video ''A'') = ''A''" "url (example_video ''B'') = ''B''"
    "url (example_video ''C'') = ''C''"
    by (simp_all add: example_video_def)
  note th = batches_are_contiguous_slices[OF h1 h2 h3 h4 h5, where w = empty_world]
  note c = th[THEN conjunct2, THEN conjunct2, THEN conjunct2, THEN conjunct1]
  note g = th[THEN conjunct2, THEN conjunct2, THEN conjunct2, THEN conjunct2]
  from c obtain r st es where
    c1: "parallel_download_videos ?E ?vs 2 [''y''] empty_world = Inr (r, st)"
    and c2: "trace (world st) = trace empty_world @ es"
    and c3: "fresh_paths ?E empty_world ?vs \<longrightarrow>
          (\<exists>segs. list_all2 works_on (slices (nat 2) ?vs) segs \<and>
             es = concat (map2 batch_run (slices (nat 2) ?vs) segs))"
    by (elim exE conjE)
  from c3 h6 obtain segs where
    c4: "list_all2 works_on [[example_video ''A'', example_video ''B''], [example_video ''C'']] segs"
        "es = concat (map2 batch_run
                 [[example_video ''A'', example_video ''B''], [example_video ''C'']] segs)"
    unfolding slices_example by blast
  from two_batches[OF c4] c1 c2 have c': "\<exists>r st s1 s2.
      parallel_download_videos ?E ?vs 2 [''y''] empty_world = Inr (r, st) \<and>
      trace (world st) =
        [Submit [example_video ''A'', example_video ''B'']] @ s1 @ [Shutdown True] @
        [Submit [example_video ''C'']] @ s2 @ [Shutdown True] \<and>
      pool_events s1 = [] \<and> set (requested s1) = {''A'', ''B''} \<and>
      pool_events s2 = [] \<and> set (requested s2) = {''C''}"
    unfolding u t by auto
  from g obtain r' st' es' where
    g1: "gui_parallel_download_videos ?E ?vs 2 None empty_world = Inr (r', st')"
    and g2: "trace (world st') = trace empty_world @ es'"
    and g3: "fresh_paths ?E empty_world ?vs \<longrightarrow>
          (\<exists>segs. list_all2 works_on (slices (nat 2) ?vs) segs \<and>
             es' = concat (map2 batch_run (slices (nat 2) ?vs) segs))"
    by (elim exE conjE)
  from g3 h6 obtain segs' where
    g4: "list_all2 works_on [[example_video ''A'', example_video ''B''], [example_video ''C'']] segs'"
        "es' = concat (map2 batch_run
                 [[example_video ''A'', example_video ''B''], [example_video ''C'']] segs')"
    unfolding slices_example by blast
  from two_batches[OF g4] g1 g2 have g': "\<exists>r st s1 s2.
      gui_parallel_download_videos ?E ?vs 2 None empty_world = Inr (r, st) \<and>
      trace (world st) =
        [Submit [example_video ''A'', example_video ''B'']] @ s1 @ [Shutdown True] @
        [Submit [example_video ''C'']] @ s2 @ [Shutdown True] \<and>
      pool_events s1 = [] \<and> set (requested s1) = {''A'', ''B''} \<and>
      pool_events s2 = [] \<and> set (requested s2) = {''C''}"
    unfolding u t by auto
  from h2 h4 h6 slices_example c' g' show ?thesis by (intro conjI)
qed

end
